theory Spec2Isabelle
  imports Main "HOL-Library.Word" "HOL-Library.List_Lexorder"
begin

unbundle bit_operations_syntax

section \<open>Byte strings\<close>

type_synonym byte = "8 word"
type_synonym bytes = "byte list"

text \<open>
  Go's library function \<open>bytes.Compare\<close>: lexicographic comparison of two byte slices
  (bytes are unsigned), with result \<open>-1\<close>, \<open>0\<close> or \<open>1\<close>. A nil slice is an empty slice.
\<close>

fun bytes_Compare :: "bytes \<Rightarrow> bytes \<Rightarrow> int" where
  "bytes_Compare [] [] = 0"
| "bytes_Compare [] (y # ys) = - 1"
| "bytes_Compare (x # xs) [] = 1"
| "bytes_Compare (x # xs) (y # ys) =
     (if x < y then - 1 else if y < x then 1 else bytes_Compare xs ys)"

text \<open>Go's \<open>bytes.Equal\<close>: same length and same bytes.\<close>

definition bytes_Equal :: "bytes \<Rightarrow> bytes \<Rightarrow> bool" where
  "bytes_Equal a b = (a = b)"

section \<open>RecordId (server/storage/record\_id.go)\<close>

text \<open>
  The struct has a tag \<open>repr\<close> (an \<open>int8\<close>: 0 = null, 1 = int64, 2 = bytes), the
  \<open>int64\<close> payload and the byte payload.
\<close>

record RecordId =
  repr :: "8 word"
  long :: "64 word"
  data :: bytes

definition NewRecordIdFromLong :: "64 word \<Rightarrow> RecordId" where
  "NewRecordIdFromLong x = \<lparr>repr = 1, long = x, data = []\<rparr>"

definition NewRecordIdFromBytes :: "bytes \<Rightarrow> RecordId" where
  "NewRecordIdFromBytes d = \<lparr>repr = 2, long = 0, data = d\<rparr>"

definition NullRecordId :: RecordId where
  "NullRecordId = \<lparr>repr = 0, long = 0, data = []\<rparr>"

definition IsNull :: "RecordId \<Rightarrow> bool" where
  "IsNull r = (repr r = 0)"

definition IsLong :: "RecordId \<Rightarrow> bool" where
  "IsLong r = (repr r = 1)"

definition AsLong :: "RecordId \<Rightarrow> 64 word \<times> bool" where
  "AsLong r = (if repr r \<noteq> 1 then (0, False) else (long r, True))"

text \<open>\<open>binary.BigEndian.PutUint64\<close>: the eight bytes of the value, most significant first.\<close>

definition PutUint64 :: "64 word \<Rightarrow> bytes" where
  "PutUint64 v =
     [ucast (drop_bit 56 v), ucast (drop_bit 48 v), ucast (drop_bit 40 v),
      ucast (drop_bit 32 v), ucast (drop_bit 24 v), ucast (drop_bit 16 v),
      ucast (drop_bit 8 v), ucast v]"

definition AsBytes :: "RecordId \<Rightarrow> bytes \<times> bool" where
  "AsBytes r =
     (if repr r = 2 then (data r, True)
      else if repr r = 1 then (PutUint64 (long r), True)
      else ([], False))"

text \<open>
  \<open>compareBytes\<close>: the loop over the common prefix, from index \<open>i\<close>, then the
  comparison of the lengths.
\<close>

function compareBytes_from :: "nat \<Rightarrow> bytes \<Rightarrow> bytes \<Rightarrow> int" where
  "compareBytes_from i a b =
     (if i < min (length a) (length b) then
        (if a ! i < b ! i then - 1
         else if a ! i > b ! i then 1
         else compareBytes_from (i + 1) a b)
      else if length a < length b then - 1
      else if length a > length b then 1
      else 0)"
  by pat_completeness auto
termination
  by (relation "measure (\<lambda>(i, a, b). min (length a) (length b) - i)") auto

definition compareBytes :: "bytes \<Rightarrow> bytes \<Rightarrow> int" where
  "compareBytes a b = compareBytes_from 0 a b"

text \<open>
  \<open>Compare\<close>: when the tags differ the result is the \<open>int8\<close> difference of the tags,
  converted to \<open>int\<close>; otherwise the payloads are compared.
\<close>

definition Compare :: "RecordId \<Rightarrow> RecordId \<Rightarrow> int" where
  "Compare r other =
     (if repr r \<noteq> repr other then sint (repr r - repr other)
      else if repr r = 0 then 0
      else if repr r = 1 then
        (if long r <s long other then - 1
         else if long other <s long r then 1
         else 0)
      else if repr r = 2 then compareBytes (data r) (data other)
      else 0)"

section \<open>Errors\<close>

text \<open>
  The code builds its errors with \<open>fmt.Errorf\<close>; each constructor stands for one message
  of the source, and a constructor with an \<open>error\<close> argument for a message that wraps
  another error with \<open>%w\<close>. \<open>CallbackError\<close> is an error returned by a caller-supplied
  callback.
\<close>

datatype error =
    KeyEmpty
  | KeyNotFound
  | RecordIdNull
  | RecordIdNotBytes
  | RecordExists RecordId
  | RecordMissing RecordId
  | InsertRecordFailed error
  | UpdateRecordFailed error
  | DeleteRecordFailed error
  | ScanFailed error
  | IndexKeyEmpty
  | UniqueConstraintViolation bytes
  | InsertIndexFailed error
  | RemoveIndexFailed error
  | SeekFailed error
  | SeekRangeFailed error
  | TxnAlreadyActive
  | NoActiveTxnToCommit
  | NoActiveTxnToRollback
  | CommitChangeFailed error
  | RollbackChangeFailed error
  | TimestampOutsideTxn
  | RegisterOutsideTxn
  | SessionAlreadyActive string
  | SessionNotActive string
  | SessionAlreadyInTxn string
  | SessionNoTxn string
  | EndRollbackFailed error
  | EngineAlreadyRunning
  | EngineNotRunning
  | SessionLimitExceeded int
  | SessionStartFailed error
  | RecordStoreExists string
  | RecordStoreMissing string
  | IndexExists string string
  | IndexMissing string string
  | CallbackError string

section \<open>RecoveryUnit (server/storage/recovery\_unit.go)\<close>

datatype TransactionState =
  TxnStateInactive | TxnStateActive | TxnStateCommitted | TxnStateAborted

text \<open>
  A \<open>Change\<close> is a pair of callbacks. A callback may touch any state of its caller, so it
  is a function on a world \<open>'w\<close> that returns its error (\<open>None\<close> for \<open>nil\<close>) and the new
  world.
\<close>

record 'w Change =
  commitFunc :: "'w \<Rightarrow> error option \<times> 'w"
  rollbackFunc :: "'w \<Rightarrow> error option \<times> 'w"

text \<open>Timestamps are natural numbers; \<open>0\<close> is the zero \<open>time.Time\<close>.\<close>

record 'w WiredTigerRecoveryUnit =
  state :: TransactionState
  readTimestamp :: nat
  commitTimestamp :: nat
  changes :: "'w Change list"
  snapshot :: "string \<rightharpoonup> bytes"

definition NewRecoveryUnit :: "'w WiredTigerRecoveryUnit" where
  "NewRecoveryUnit =
     \<lparr>state = TxnStateInactive, readTimestamp = 0, commitTimestamp = 0,
      changes = [], snapshot = Map.empty\<rparr>"

text \<open>\<open>now\<close> is the value of \<open>time.Now()\<close> at the call.\<close>

definition BeginTransaction ::
  "nat \<Rightarrow> 'w WiredTigerRecoveryUnit \<Rightarrow> error option \<times> 'w WiredTigerRecoveryUnit" where
  "BeginTransaction now ru =
     (if state ru = TxnStateActive then (Some TxnAlreadyActive, ru)
      else (None, ru\<lparr>state := TxnStateActive, readTimestamp := now,
                      changes := [], snapshot := Map.empty\<rparr>))"

text \<open>The loop of \<open>Commit\<close> over the change log, first to last, leaving at the first error.\<close>

fun commitLoop :: "'w Change list \<Rightarrow> 'w \<Rightarrow> error option \<times> 'w" where
  "commitLoop [] w = (None, w)"
| "commitLoop (c # cs) w =
     (case commitFunc c w of
        (Some e, w') \<Rightarrow> (Some e, w')
      | (None, w') \<Rightarrow> commitLoop cs w')"

definition Commit ::
  "nat \<Rightarrow> 'w WiredTigerRecoveryUnit \<Rightarrow> 'w \<Rightarrow>
     error option \<times> 'w WiredTigerRecoveryUnit \<times> 'w" where
  "Commit now ru w =
     (if state ru \<noteq> TxnStateActive then (Some NoActiveTxnToCommit, ru, w)
      else
        let ru1 = (if commitTimestamp ru = 0 then ru\<lparr>commitTimestamp := now\<rparr> else ru)
        in case commitLoop (changes ru1) w of
             (Some e, w') \<Rightarrow> (Some (CommitChangeFailed e), ru1\<lparr>state := TxnStateAborted\<rparr>, w')
           | (None, w') \<Rightarrow> (None, ru1\<lparr>state := TxnStateCommitted, changes := []\<rparr>, w'))"

text \<open>
  The loop of \<open>Rollback\<close>: \<open>for i := len(ru.changes) - 1; i >= 0; i--\<close>. The argument
  \<open>n\<close> is \<open>i + 1\<close>, so the loop starts at \<open>n = len(ru.changes)\<close>.
\<close>

fun rollbackLoop :: "'w Change list \<Rightarrow> nat \<Rightarrow> 'w \<Rightarrow> error option \<times> 'w" where
  "rollbackLoop cs 0 w = (None, w)"
| "rollbackLoop cs (Suc i) w =
     (case rollbackFunc (cs ! i) w of
        (Some e, w') \<Rightarrow> (Some e, w')
      | (None, w') \<Rightarrow> rollbackLoop cs i w')"

definition Rollback ::
  "'w WiredTigerRecoveryUnit \<Rightarrow> 'w \<Rightarrow> error option \<times> 'w WiredTigerRecoveryUnit \<times> 'w" where
  "Rollback ru w =
     (if state ru \<noteq> TxnStateActive then (Some NoActiveTxnToRollback, ru, w)
      else
        case rollbackLoop (changes ru) (length (changes ru)) w of
          (Some e, w') \<Rightarrow> (Some (RollbackChangeFailed e), ru, w')
        | (None, w') \<Rightarrow>
            (None, ru\<lparr>state := TxnStateAborted, changes := [], snapshot := Map.empty\<rparr>, w'))"

definition SetCommitTimestamp ::
  "nat \<Rightarrow> 'w WiredTigerRecoveryUnit \<Rightarrow> error option \<times> 'w WiredTigerRecoveryUnit" where
  "SetCommitTimestamp ts ru =
     (if state ru \<noteq> TxnStateActive then (Some TimestampOutsideTxn, ru)
      else (None, ru\<lparr>commitTimestamp := ts\<rparr>))"

definition RegisterChange ::
  "'w Change \<Rightarrow> 'w WiredTigerRecoveryUnit \<Rightarrow> error option \<times> 'w WiredTigerRecoveryUnit" where
  "RegisterChange change ru =
     (if state ru \<noteq> TxnStateActive then (Some RegisterOutsideTxn, ru)
      else (None, ru\<lparr>changes := changes ru @ [change]\<rparr>))"

definition ru_IsActive :: "'w WiredTigerRecoveryUnit \<Rightarrow> bool" where
  "ru_IsActive ru = (state ru = TxnStateActive)"

definition IsCommitted :: "'w WiredTigerRecoveryUnit \<Rightarrow> bool" where
  "IsCommitted ru = (state ru = TxnStateCommitted)"

definition IsAborted :: "'w WiredTigerRecoveryUnit \<Rightarrow> bool" where
  "IsAborted ru = (state ru = TxnStateAborted)"

text \<open>
  \<open>SimpleChange\<close>: a change built from two optional functions; a missing (\<open>nil\<close>) function
  does nothing and returns no error.
\<close>

definition NewSimpleChange ::
  "('w \<Rightarrow> error option \<times> 'w) option \<Rightarrow> ('w \<Rightarrow> error option \<times> 'w) option \<Rightarrow> 'w Change" where
  "NewSimpleChange cf rf =
     \<lparr>commitFunc = (case cf of None \<Rightarrow> (\<lambda>w. (None, w)) | Some f \<Rightarrow> f),
      rollbackFunc = (case rf of None \<Rightarrow> (\<lambda>w. (None, w)) | Some f \<Rightarrow> f)\<rparr>"

section \<open>Session (server/storage/session.go)\<close>

text \<open>
  The session owns its recovery unit. The back-reference to the engine is not used by any
  method and is left out.
\<close>

record 'w WiredTigerSession =
  sessionId :: string
  recoveryUnit :: "'w WiredTigerRecoveryUnit"
  active :: bool
  inTransaction :: bool
  createdAt :: nat

definition NewEngineSession :: "nat \<Rightarrow> string \<Rightarrow> 'w WiredTigerSession" where
  "NewEngineSession now sid =
     \<lparr>sessionId = sid, recoveryUnit = NewRecoveryUnit, active = False,
      inTransaction = False, createdAt = now\<rparr>"

definition Begin :: "'w WiredTigerSession \<Rightarrow> error option \<times> 'w WiredTigerSession" where
  "Begin s =
     (if active s then (Some (SessionAlreadyActive (sessionId s)), s)
      else (None, s\<lparr>active := True\<rparr>))"

definition End ::
  "'w WiredTigerSession \<Rightarrow> 'w \<Rightarrow> error option \<times> 'w WiredTigerSession \<times> 'w" where
  "End s w =
     (if \<not> active s then (None, s, w)
      else if inTransaction s then
        (case Rollback (recoveryUnit s) w of
           (Some e, ru', w') \<Rightarrow> (Some (EndRollbackFailed e), s\<lparr>recoveryUnit := ru'\<rparr>, w')
         | (None, ru', w') \<Rightarrow>
             (None, s\<lparr>recoveryUnit := ru', inTransaction := False, active := False\<rparr>, w'))
      else (None, s\<lparr>active := False\<rparr>, w))"

definition session_BeginTransaction ::
  "nat \<Rightarrow> 'w WiredTigerSession \<Rightarrow> error option \<times> 'w WiredTigerSession" where
  "session_BeginTransaction now s =
     (if \<not> active s then (Some (SessionNotActive (sessionId s)), s)
      else if inTransaction s then (Some (SessionAlreadyInTxn (sessionId s)), s)
      else case BeginTransaction now (recoveryUnit s) of
             (Some e, ru') \<Rightarrow> (Some e, s\<lparr>recoveryUnit := ru'\<rparr>)
           | (None, ru') \<Rightarrow> (None, s\<lparr>recoveryUnit := ru', inTransaction := True\<rparr>))"

definition CommitTransaction ::
  "nat \<Rightarrow> 'w WiredTigerSession \<Rightarrow> 'w \<Rightarrow> error option \<times> 'w WiredTigerSession \<times> 'w" where
  "CommitTransaction now s w =
     (if \<not> inTransaction s then (Some (SessionNoTxn (sessionId s)), s, w)
      else case Commit now (recoveryUnit s) w of
             (Some e, ru', w') \<Rightarrow> (Some e, s\<lparr>recoveryUnit := ru'\<rparr>, w')
           | (None, ru', w') \<Rightarrow> (None, s\<lparr>recoveryUnit := ru', inTransaction := False\<rparr>, w'))"

definition RollbackTransaction ::
  "'w WiredTigerSession \<Rightarrow> 'w \<Rightarrow> error option \<times> 'w WiredTigerSession \<times> 'w" where
  "RollbackTransaction s w =
     (if \<not> inTransaction s then (Some (SessionNoTxn (sessionId s)), s, w)
      else case Rollback (recoveryUnit s) w of
             (Some e, ru', w') \<Rightarrow> (Some e, s\<lparr>recoveryUnit := ru'\<rparr>, w')
           | (None, ru', w') \<Rightarrow> (None, s\<lparr>recoveryUnit := ru', inTransaction := False\<rparr>, w'))"

definition session_IsActive :: "'w WiredTigerSession \<Rightarrow> bool" where
  "session_IsActive s = active s"

definition InTransaction :: "'w WiredTigerSession \<Rightarrow> bool" where
  "InTransaction s = inTransaction s"

section \<open>The B+ tree (server/storage/btree/btree.go)\<close>

text \<open>
  The nodes of the tree point at each other (children, next leaf, parent), and the code
  updates them in place, so the tree is modelled with an explicit store: \<open>nodes\<close> is the
  list of all nodes ever allocated and a pointer is an index into it (\<open>None\<close> is \<open>nil\<close>).
  \<open>leafNext\<close> is the field \<open>next\<close> and \<open>vals\<close> the field \<open>values\<close> of the source.
\<close>

record Node =
  isLeaf :: bool
  keys :: "bytes list"
  vals :: "bytes list"
  children :: "nat list"
  leafNext :: "nat option"
  parent :: "nat option"

record BTree =
  nodes :: "Node list"
  root :: nat
  order :: int

definition newLeafNode :: Node where
  "newLeafNode =
     \<lparr>isLeaf = True, keys = [], vals = [], children = [], leafNext = None, parent = None\<rparr>"

definition newInternalNode :: Node where
  "newInternalNode =
     \<lparr>isLeaf = False, keys = [], vals = [], children = [], leafNext = None, parent = None\<rparr>"

definition NewBTree :: "int \<Rightarrow> BTree" where
  "NewBTree ord = \<lparr>nodes = [newLeafNode], root = 0, order = (if ord < 3 then 3 else ord)\<rparr>"

text \<open>
  Reading through a pointer, writing through a pointer, allocating a node. A function of
  the tree returns \<open>None\<close> when the Go code does not return normally: it dereferences
  \<open>nil\<close>, indexes or slices out of range, or runs forever.
\<close>

definition node_at :: "BTree \<Rightarrow> nat \<Rightarrow> Node option" where
  "node_at t a = (if a < length (nodes t) then Some (nodes t ! a) else None)"

definition upd_node :: "nat \<Rightarrow> (Node \<Rightarrow> Node) \<Rightarrow> BTree \<Rightarrow> BTree" where
  "upd_node a f t = t\<lparr>nodes := (nodes t)[a := f (nodes t ! a)]\<rparr>"

definition alloc_node :: "Node \<Rightarrow> BTree \<Rightarrow> nat \<times> BTree" where
  "alloc_node n t = (length (nodes t), t\<lparr>nodes := nodes t @ [n]\<rparr>)"

text \<open>
  The scan of \<open>findLeaf\<close> inside an internal node:
  \<open>for i < len(node.keys) && bytes.Compare(key, node.keys[i]) >= 0 { i++ }\<close>.
\<close>

fun child_index :: "bytes \<Rightarrow> bytes list \<Rightarrow> nat" where
  "child_index key [] = 0"
| "child_index key (k # ks) =
     (if bytes_Compare key k \<ge> 0 then Suc (child_index key ks) else 0)"

text \<open>
  The scan of \<open>insertIntoLeaf\<close> and \<open>insertIntoParent\<close>:
  \<open>for i < len(keys) && bytes.Compare(key, keys[i]) > 0 { i++ }\<close>.
\<close>

fun insert_pos :: "bytes \<Rightarrow> bytes list \<Rightarrow> nat" where
  "insert_pos key [] = 0"
| "insert_pos key (k # ks) =
     (if bytes_Compare key k > 0 then Suc (insert_pos key ks) else 0)"

text \<open>\<open>findLeaf\<close>, from the node at address \<open>a\<close> downwards.\<close>

partial_function (option) findLeaf_from :: "BTree \<Rightarrow> bytes \<Rightarrow> nat \<Rightarrow> nat option" where
  "findLeaf_from t key a =
     (case node_at t a of
        None \<Rightarrow> None
      | Some node \<Rightarrow>
          if isLeaf node then Some a
          else if child_index key (keys node) < length (children node)
          then findLeaf_from t key (children node ! child_index key (keys node))
          else None)"

declare findLeaf_from.simps [code]

definition findLeaf :: "BTree \<Rightarrow> bytes \<Rightarrow> nat option" where
  "findLeaf t key = findLeaf_from t key (root t)"

text \<open>Inserting \<open>x\<close> before position \<open>i\<close>: \<open>append(s[:i], append([]T{x}, s[i:]...)...)\<close>.\<close>

definition insert_at :: "nat \<Rightarrow> 'a \<Rightarrow> 'a list \<Rightarrow> 'a list" where
  "insert_at i x xs = take i xs @ [x] @ drop i xs"

definition insertIntoLeaf :: "BTree \<Rightarrow> nat \<Rightarrow> bytes \<Rightarrow> bytes \<Rightarrow> BTree option" where
  "insertIntoLeaf t leaf key val =
     (case node_at t leaf of
        None \<Rightarrow> None
      | Some n \<Rightarrow>
          let i = insert_pos key (keys n) in
          if i < length (keys n) \<and> bytes_Equal key (keys n ! i) then
            (if i < length (vals n)
             then Some (upd_node leaf (\<lambda>x. x\<lparr>vals := (vals x)[i := val]\<rparr>) t)
             else None)
          else if i \<le> length (vals n) then
            Some (upd_node leaf
                    (\<lambda>x. x\<lparr>keys := insert_at i key (keys x),
                            vals := insert_at i val (vals x)\<rparr>) t)
          else None)"

text \<open>
  The part of \<open>splitInternal\<close> before the parent is looked at: the new right sibling takes
  the keys and children after the middle key, its children are told their new parent, and
  the node keeps what is before the middle key. The result is the new tree, the promoted
  key and the address of the new node.
\<close>

definition set_parents :: "nat list \<Rightarrow> nat \<Rightarrow> BTree \<Rightarrow> BTree option" where
  "set_parents cs p t =
     fold (\<lambda>c r. case r of None \<Rightarrow> None
                  | Some t' \<Rightarrow> if c < length (nodes t')
                               then Some (upd_node c (\<lambda>x. x\<lparr>parent := Some p\<rparr>) t')
                               else None)
          cs (Some t)"

definition splitInternal_halve :: "BTree \<Rightarrow> nat \<Rightarrow> (BTree \<times> bytes \<times> nat) option" where
  "splitInternal_halve t node =
     (case node_at t node of
        None \<Rightarrow> None
      | Some n \<Rightarrow>
          let mid = length (keys n) div 2 in
          if mid < length (keys n) \<and> mid + 1 \<le> length (children n) then
            (let promoteKey = keys n ! mid;
                 (newNode, t1) =
                    alloc_node (newInternalNode\<lparr>keys := drop (mid + 1) (keys n),
                                                 children := drop (mid + 1) (children n)\<rparr>) t
             in case set_parents (drop (mid + 1) (children n)) newNode t1 of
                  None \<Rightarrow> None
                | Some t2 \<Rightarrow>
                    Some (upd_node node (\<lambda>x. x\<lparr>keys := take mid (keys x),
                                                 children := take (mid + 1) (children x)\<rparr>) t2,
                          promoteKey, newNode))
          else None)"

text \<open>
  The branch of \<open>splitLeaf\<close> and \<open>splitInternal\<close> for a node without parent: a new root
  with the promoted key and the two halves as children.
\<close>

definition make_new_root :: "BTree \<Rightarrow> nat \<Rightarrow> bytes \<Rightarrow> nat \<Rightarrow> BTree" where
  "make_new_root t left promoteKey right =
     (let (newRoot, t1) =
            alloc_node (newInternalNode\<lparr>keys := [promoteKey], children := [left, right]\<rparr>) t;
          t2 = upd_node left (\<lambda>x. x\<lparr>parent := Some newRoot\<rparr>) t1;
          t3 = upd_node right (\<lambda>x. x\<lparr>parent := Some newRoot\<rparr>) t2
      in t3\<lparr>root := newRoot\<rparr>)"

text \<open>
  \<open>insertIntoParent\<close> and \<open>splitInternal\<close> call each other. The recursion is written as
  one function, \<open>insertIntoParent\<close>, with the body of \<open>splitInternal\<close> in place of its
  call; \<open>splitInternal\<close> itself is defined after it, and \<open>insertIntoParent_splitInternal\<close>
  below shows that \<open>insertIntoParent\<close> calls it as the source does. After the recursive
  call the source assigns \<open>newNode.parent = node.parent\<close>, reading \<open>node.parent\<close> at
  that moment.
\<close>

partial_function (option) insertIntoParent ::
  "BTree \<Rightarrow> nat \<Rightarrow> bytes \<Rightarrow> nat \<Rightarrow> BTree option" where
  "insertIntoParent t par key rightChild =
     (case node_at t par of
        None \<Rightarrow> None
      | Some p \<Rightarrow>
          if insert_pos key (keys p) + 1 \<le> length (children p) then
            (let t1 = upd_node par
                        (\<lambda>x. x\<lparr>keys := insert_at (insert_pos key (keys p)) key (keys x),
                                children := insert_at (insert_pos key (keys p) + 1) rightChild
                                              (children x)\<rparr>) t
             in if int (length (keys p)) + 1 \<ge> order t then
                  (case splitInternal_halve t1 par of
                     None \<Rightarrow> None
                   | Some (t2, promoteKey, newNode) \<Rightarrow>
                       (case parent (nodes t2 ! par) of
                          None \<Rightarrow> Some (make_new_root t2 par promoteKey newNode)
                        | Some pp \<Rightarrow>
                            Option.bind (insertIntoParent t2 pp promoteKey newNode)
                              (\<lambda>t3. Some (upd_node newNode
                                             (\<lambda>x. x\<lparr>parent := parent (nodes t3 ! par)\<rparr>) t3))))
                else Some t1)
          else None)"

declare insertIntoParent.simps [code]


definition splitLeaf :: "BTree \<Rightarrow> nat \<Rightarrow> BTree option" where
  "splitLeaf t leaf =
     (case node_at t leaf of
        None \<Rightarrow> None
      | Some n \<Rightarrow>
          let mid = length (keys n) div 2 in
          if mid \<le> length (vals n) \<and> mid < length (keys n) then
            (let (newLeaf, t1) =
                   alloc_node (newLeafNode\<lparr>keys := drop mid (keys n), vals := drop mid (vals n),
                                           leafNext := leafNext n\<rparr>) t;
                 t2 = upd_node leaf (\<lambda>x. x\<lparr>keys := take mid (keys x), vals := take mid (vals x),
                                           leafNext := Some newLeaf\<rparr>) t1;
                 promoteKey = keys n ! mid
             in case parent (nodes t2 ! leaf) of
                  None \<Rightarrow> Some (make_new_root t2 leaf promoteKey newLeaf)
                | Some pp \<Rightarrow>
                    Option.bind (insertIntoParent t2 pp promoteKey newLeaf)
                      (\<lambda>t3. Some (upd_node newLeaf
                                     (\<lambda>x. x\<lparr>parent := parent (nodes t3 ! leaf)\<rparr>) t3)))
          else None)"

text \<open>\<open>Insert\<close>: the error for an empty key, else the insertion and, if needed, the split.\<close>

definition Insert :: "BTree \<Rightarrow> bytes \<Rightarrow> bytes \<Rightarrow> (error option \<times> BTree) option" where
  "Insert t key val =
     (if length key = 0 then Some (Some KeyEmpty, t)
      else case findLeaf t key of
             None \<Rightarrow> None
           | Some leaf \<Rightarrow>
               (case insertIntoLeaf t leaf key val of
                  None \<Rightarrow> None
                | Some t1 \<Rightarrow>
                    if int (length (keys (nodes t1 ! leaf))) \<ge> order t1 then
                      (case splitLeaf t1 leaf of
                         None \<Rightarrow> None
                       | Some t2 \<Rightarrow> Some (None, t2))
                    else Some (None, t1)))"

text \<open>
  The loop of \<open>Get\<close> and \<open>Delete\<close> over the keys of the leaf: the first index whose key
  equals \<open>key\<close>.
\<close>

fun find_key :: "bytes \<Rightarrow> bytes list \<Rightarrow> nat \<Rightarrow> nat option" where
  "find_key key [] i = None"
| "find_key key (k # ks) i = (if bytes_Equal k key then Some i else find_key key ks (i + 1))"

definition Get :: "BTree \<Rightarrow> bytes \<Rightarrow> bytes option option" where
  "Get t key =
     (if length key = 0 then Some None
      else case findLeaf t key of
             None \<Rightarrow> None
           | Some leaf \<Rightarrow>
               (case find_key key (keys (nodes t ! leaf)) 0 of
                  None \<Rightarrow> Some None
                | Some i \<Rightarrow>
                    if i < length (vals (nodes t ! leaf))
                    then Some (Some (vals (nodes t ! leaf) ! i))
                    else None))"

text \<open>Removing position \<open>i\<close>: \<open>append(s[:i], s[i+1:]...)\<close>.\<close>

definition remove_at :: "nat \<Rightarrow> 'a list \<Rightarrow> 'a list" where
  "remove_at i xs = take i xs @ drop (i + 1) xs"

definition Delete :: "BTree \<Rightarrow> bytes \<Rightarrow> (error option \<times> BTree) option" where
  "Delete t key =
     (if length key = 0 then Some (Some KeyEmpty, t)
      else case findLeaf t key of
             None \<Rightarrow> None
           | Some leaf \<Rightarrow>
               (case find_key key (keys (nodes t ! leaf)) 0 of
                  None \<Rightarrow> Some (Some KeyNotFound, t)
                | Some i \<Rightarrow>
                    if i + 1 \<le> length (vals (nodes t ! leaf))
                    then Some (None, upd_node leaf (\<lambda>x. x\<lparr>keys := remove_at i (keys x),
                                                           vals := remove_at i (vals x)\<rparr>) t)
                    else None))"

text \<open>
  \<open>Range\<close>. A bound is \<open>None\<close> for a \<open>nil\<close> slice; \<open>bytes.Compare\<close> reads a \<open>nil\<close> start
  key as the empty string, and the end bound is only tested when it is not \<open>nil\<close>.
  \<open>range_leaf\<close> is the inner loop over the keys of one leaf, from index \<open>i\<close>: its result
  says whether the function returned inside the loop, with the keys and values so far.
\<close>

fun range_leaf ::
  "bytes \<Rightarrow> bytes option \<Rightarrow> bytes list \<Rightarrow> bytes list \<Rightarrow> nat \<Rightarrow> bytes list \<times> bytes list \<Rightarrow>
     (bool \<times> bytes list \<times> bytes list) option" where
  "range_leaf startKey endKey [] vs i acc = Some (False, acc)"
| "range_leaf startKey endKey (k # ks) vs i acc =
     (if bytes_Compare k startKey \<ge> 0 then
        (if endKey \<noteq> None \<and> bytes_Compare k (the endKey) \<ge> 0 then Some (True, acc)
         else if i < length vs
         then range_leaf startKey endKey ks vs (i + 1) (fst acc @ [k], snd acc @ [vs ! i])
         else None)
      else range_leaf startKey endKey ks vs (i + 1) acc)"

partial_function (option) range_walk ::
  "BTree \<Rightarrow> bytes \<Rightarrow> bytes option \<Rightarrow> nat option \<Rightarrow> bytes list \<times> bytes list \<Rightarrow>
     (bytes list \<times> bytes list) option" where
  "range_walk t startKey endKey leaf acc =
     (case leaf of
        None \<Rightarrow> Some acc
      | Some a \<Rightarrow>
          (case node_at t a of
             None \<Rightarrow> None
           | Some n \<Rightarrow>
               (case range_leaf startKey endKey (keys n) (vals n) 0 acc of
                  None \<Rightarrow> None
                | Some (returned, acc') \<Rightarrow>
                    if returned then Some acc'
                    else range_walk t startKey endKey (leafNext n) acc')))"

declare range_walk.simps [code]

definition nil_bytes :: "bytes option \<Rightarrow> bytes" where
  "nil_bytes b = (case b of None \<Rightarrow> [] | Some x \<Rightarrow> x)"

definition Range ::
  "BTree \<Rightarrow> bytes option \<Rightarrow> bytes option \<Rightarrow> (bytes list \<times> bytes list) option" where
  "Range t startKey endKey =
     (case findLeaf t (nil_bytes startKey) of
        None \<Rightarrow> None
      | Some leaf \<Rightarrow> range_walk t (nil_bytes startKey) endKey (Some leaf) ([], []))"

text \<open>\<open>Size\<close>: the number of keys on the chain of leaves that starts at the leftmost leaf.\<close>

partial_function (option) findFirstLeaf_from :: "BTree \<Rightarrow> nat \<Rightarrow> nat option" where
  "findFirstLeaf_from t a =
     (case node_at t a of
        None \<Rightarrow> None
      | Some node \<Rightarrow>
          if isLeaf node then Some a
          else if 0 < length (children node) then findFirstLeaf_from t (children node ! 0)
          else None)"

declare findFirstLeaf_from.simps [code]

definition findFirstLeaf :: "BTree \<Rightarrow> nat option" where
  "findFirstLeaf t = findFirstLeaf_from t (root t)"

partial_function (option) size_walk :: "BTree \<Rightarrow> nat option \<Rightarrow> nat \<Rightarrow> nat option" where
  "size_walk t leaf count =
     (case leaf of
        None \<Rightarrow> Some count
      | Some a \<Rightarrow>
          (case node_at t a of
             None \<Rightarrow> None
           | Some n \<Rightarrow> size_walk t (leafNext n) (count + length (keys n))))"

declare size_walk.simps [code]

definition Size :: "BTree \<Rightarrow> nat option" where
  "Size t = (case findFirstLeaf t of None \<Rightarrow> None | Some leaf \<Rightarrow> size_walk t (Some leaf) 0)"

section \<open>RecordStore (server/storage/record\_store.go)\<close>

text \<open>The counters are \<open>int64\<close>; \<open>atomic.AddInt64\<close> wraps around.\<close>

record BTreeRecordStore =
  tree :: BTree
  numRecords :: "64 word"
  dataSize :: "64 word"
  namespace :: string

definition NewRecordStore :: "string \<Rightarrow> BTreeRecordStore" where
  "NewRecordStore ns = \<lparr>tree = NewBTree 128, numRecords = 0, dataSize = 0, namespace = ns\<rparr>"

definition InsertRecord ::
  "BTreeRecordStore \<Rightarrow> RecordId \<Rightarrow> bytes \<Rightarrow> (error option \<times> BTreeRecordStore) option" where
  "InsertRecord rs recordId d =
     (if IsNull recordId then Some (Some RecordIdNull, rs)
      else if \<not> snd (AsBytes recordId) then Some (Some RecordIdNotBytes, rs)
      else case Get (tree rs) (fst (AsBytes recordId)) of
             None \<Rightarrow> None
           | Some (Some old) \<Rightarrow> Some (Some (RecordExists recordId), rs)
           | Some None \<Rightarrow>
               (case Insert (tree rs) (fst (AsBytes recordId)) d of
                  None \<Rightarrow> None
                | Some (Some e, t') \<Rightarrow> Some (Some (InsertRecordFailed e), rs\<lparr>tree := t'\<rparr>)
                | Some (None, t') \<Rightarrow>
                    Some (None, rs\<lparr>tree := t', numRecords := numRecords rs + 1,
                                    dataSize := dataSize rs + word_of_nat (length d)\<rparr>)))"

definition UpdateRecord ::
  "BTreeRecordStore \<Rightarrow> RecordId \<Rightarrow> bytes \<Rightarrow> (error option \<times> BTreeRecordStore) option" where
  "UpdateRecord rs recordId d =
     (if IsNull recordId then Some (Some RecordIdNull, rs)
      else if \<not> snd (AsBytes recordId) then Some (Some RecordIdNotBytes, rs)
      else case Get (tree rs) (fst (AsBytes recordId)) of
             None \<Rightarrow> None
           | Some None \<Rightarrow> Some (Some (RecordMissing recordId), rs)
           | Some (Some oldData) \<Rightarrow>
               (case Insert (tree rs) (fst (AsBytes recordId)) d of
                  None \<Rightarrow> None
                | Some (Some e, t') \<Rightarrow> Some (Some (UpdateRecordFailed e), rs\<lparr>tree := t'\<rparr>)
                | Some (None, t') \<Rightarrow>
                    Some (None, rs\<lparr>tree := t',
                                    dataSize := dataSize rs +
                                      (word_of_nat (length d) - word_of_nat (length oldData))\<rparr>)))"

definition DeleteRecord ::
  "BTreeRecordStore \<Rightarrow> RecordId \<Rightarrow> (error option \<times> BTreeRecordStore) option" where
  "DeleteRecord rs recordId =
     (if IsNull recordId then Some (Some RecordIdNull, rs)
      else if \<not> snd (AsBytes recordId) then Some (Some RecordIdNotBytes, rs)
      else case Get (tree rs) (fst (AsBytes recordId)) of
             None \<Rightarrow> None
           | Some None \<Rightarrow> Some (Some (RecordMissing recordId), rs)
           | Some (Some d) \<Rightarrow>
               (case Delete (tree rs) (fst (AsBytes recordId)) of
                  None \<Rightarrow> None
                | Some (Some e, t') \<Rightarrow> Some (Some (DeleteRecordFailed e), rs\<lparr>tree := t'\<rparr>)
                | Some (None, t') \<Rightarrow>
                    Some (None, rs\<lparr>tree := t', numRecords := numRecords rs - 1,
                                    dataSize := dataSize rs - word_of_nat (length d)\<rparr>)))"

definition GetRecord :: "BTreeRecordStore \<Rightarrow> RecordId \<Rightarrow> (error + bytes) option" where
  "GetRecord rs recordId =
     (if IsNull recordId then Some (Inl RecordIdNull)
      else if \<not> snd (AsBytes recordId) then Some (Inl RecordIdNotBytes)
      else case Get (tree rs) (fst (AsBytes recordId)) of
             None \<Rightarrow> None
           | Some None \<Rightarrow> Some (Inl (RecordMissing recordId))
           | Some (Some d) \<Rightarrow> Some (Inr d))"

text \<open>The cursor over the result of a range query; \<open>index\<close> starts at \<open>-1\<close>.\<close>

record btreeCursor =
  cur_keys :: "bytes list"
  cur_values :: "bytes list"
  cur_index :: int

definition Scan :: "BTreeRecordStore \<Rightarrow> RecordId \<Rightarrow> (error + btreeCursor) option" where
  "Scan rs startId =
     (if \<not> IsNull startId \<and> \<not> snd (AsBytes startId) then Some (Inl RecordIdNotBytes)
      else
        case Range (tree rs) (Some (if \<not> IsNull startId then fst (AsBytes startId) else [0])) None of
          None \<Rightarrow> None
        | Some (ks, vs) \<Rightarrow> Some (Inr \<lparr>cur_keys = ks, cur_values = vs, cur_index = - 1\<rparr>))"

definition NumRecords :: "BTreeRecordStore \<Rightarrow> 64 word" where
  "NumRecords rs = numRecords rs"

definition DataSize :: "BTreeRecordStore \<Rightarrow> 64 word" where
  "DataSize rs = dataSize rs"

definition Truncate :: "BTreeRecordStore \<Rightarrow> error option \<times> BTreeRecordStore" where
  "Truncate rs = (None, rs\<lparr>tree := NewBTree 128, numRecords := 0, dataSize := 0\<rparr>)"

definition Next :: "btreeCursor \<Rightarrow> bool \<times> btreeCursor" where
  "Next c = (cur_index c + 1 < int (length (cur_keys c)), c\<lparr>cur_index := cur_index c + 1\<rparr>)"

definition cursor_RecordId :: "btreeCursor \<Rightarrow> RecordId" where
  "cursor_RecordId c =
     (if cur_index c < 0 \<or> cur_index c \<ge> int (length (cur_keys c)) then NullRecordId
      else NewRecordIdFromBytes (cur_keys c ! nat (cur_index c)))"

definition Data :: "btreeCursor \<Rightarrow> bytes option" where
  "Data c =
     (if cur_index c < 0 \<or> cur_index c \<ge> int (length (cur_values c)) then None
      else Some (cur_values c ! nat (cur_index c)))"

text \<open>
  The caller's loop \<open>for cursor.Next() { ... cursor.RecordId() ... cursor.Data() ... }\<close>:
  the records a scan yields, in order.
\<close>

function cursor_records :: "btreeCursor \<Rightarrow> (RecordId \<times> bytes option) list" where
  "cursor_records c =
     (if fst (Next c)
      then (cursor_RecordId (snd (Next c)), Data (snd (Next c))) # cursor_records (snd (Next c))
      else [])"
  by pat_completeness auto
termination
  by (relation "measure (\<lambda>c. nat (int (length (cur_keys c)) - cur_index c))")
     (auto simp: Next_def)

section \<open>Index (SortedDataInterface)\<close>

record BTreeIndex =
  tree :: BTree
  name :: string
  unique :: bool
  numEntries :: "64 word"

definition NewSortedDataInterface :: "string \<Rightarrow> bool \<Rightarrow> BTreeIndex" where
  "NewSortedDataInterface nm u = \<lparr>tree = NewBTree 128, name = nm, unique = u, numEntries = 0\<rparr>"

text \<open>
  \<open>makeCompositeKey\<close>: the four bytes \<open>byte(len(key) >> 24)\<close>, ..., \<open>byte(len(key))\<close>, then
  the key, then the bytes of the record id (none for the null record id).
\<close>

definition makeCompositeKey :: "bytes \<Rightarrow> RecordId \<Rightarrow> bytes" where
  "makeCompositeKey key recordId =
     [word_of_nat (length key div 2 ^ 24), word_of_nat (length key div 2 ^ 16),
      word_of_nat (length key div 2 ^ 8), word_of_nat (length key)]
     @ key @ fst (AsBytes recordId)"

definition makeNextKey :: "bytes \<Rightarrow> bytes" where
  "makeNextKey key = makeCompositeKey (key @ [0xFF]) NullRecordId"

definition keyExists :: "BTreeIndex \<Rightarrow> bytes \<Rightarrow> bool option" where
  "keyExists idx key =
     (case Range (tree idx) (Some (makeCompositeKey key NullRecordId)) (Some (makeNextKey key)) of
        None \<Rightarrow> None
      | Some (ks, vs) \<Rightarrow> Some (length ks > 0))"

definition index_store :: "BTreeIndex \<Rightarrow> bytes \<Rightarrow> RecordId \<Rightarrow> (error option \<times> BTreeIndex) option" where
  "index_store idx key recordId =
     (case Insert (tree idx) (makeCompositeKey key recordId) (fst (AsBytes recordId)) of
        None \<Rightarrow> None
      | Some (Some e, t') \<Rightarrow> Some (Some (InsertIndexFailed e), idx\<lparr>tree := t'\<rparr>)
      | Some (None, t') \<Rightarrow> Some (None, idx\<lparr>tree := t', numEntries := numEntries idx + 1\<rparr>))"

text \<open>
  \<open>Insert\<close> of the index: the two argument checks, the uniqueness check of a unique
  index, then (\<open>index_store\<close>) the insertion into the tree and the count.
\<close>

definition index_Insert ::
  "BTreeIndex \<Rightarrow> bytes \<Rightarrow> RecordId \<Rightarrow> (error option \<times> BTreeIndex) option" where
  "index_Insert idx key recordId =
     (if length key = 0 then Some (Some IndexKeyEmpty, idx)
      else if IsNull recordId then Some (Some RecordIdNull, idx)
      else if unique idx then
        (case keyExists idx key of
           None \<Rightarrow> None
         | Some True \<Rightarrow> Some (Some (UniqueConstraintViolation key), idx)
         | Some False \<Rightarrow> index_store idx key recordId)
      else index_store idx key recordId)"

definition index_Remove ::
  "BTreeIndex \<Rightarrow> bytes \<Rightarrow> RecordId \<Rightarrow> (error option \<times> BTreeIndex) option" where
  "index_Remove idx key recordId =
     (if length key = 0 then Some (Some IndexKeyEmpty, idx)
      else if IsNull recordId then Some (Some RecordIdNull, idx)
      else case Delete (tree idx) (makeCompositeKey key recordId) of
             None \<Rightarrow> None
           | Some (Some e, t') \<Rightarrow> Some (Some (RemoveIndexFailed e), idx\<lparr>tree := t'\<rparr>)
           | Some (None, t') \<Rightarrow> Some (None, idx\<lparr>tree := t', numEntries := numEntries idx - 1\<rparr>))"

record btreeIndexCursor =
  icur_keys :: "bytes list"
  icur_values :: "bytes list"
  icur_index :: int

definition Seek :: "BTreeIndex \<Rightarrow> bytes \<Rightarrow> (error + btreeIndexCursor) option" where
  "Seek idx key =
     (if length key = 0 then Some (Inl IndexKeyEmpty)
      else case Range (tree idx) (Some (makeCompositeKey key NullRecordId))
                  (Some (makeNextKey key)) of
             None \<Rightarrow> None
           | Some (ks, vs) \<Rightarrow> Some (Inr \<lparr>icur_keys = ks, icur_values = vs, icur_index = - 1\<rparr>))"

text \<open>A bound of \<open>SeekRange\<close> is \<open>None\<close> for a \<open>nil\<close> key.\<close>

definition SeekRange ::
  "BTreeIndex \<Rightarrow> bytes option \<Rightarrow> bytes option \<Rightarrow> (error + btreeIndexCursor) option" where
  "SeekRange idx startKey endKey =
     (case Range (tree idx)
             (map_option (\<lambda>k. makeCompositeKey k NullRecordId) startKey)
             (map_option (\<lambda>k. makeCompositeKey k NullRecordId) endKey) of
        None \<Rightarrow> None
      | Some (ks, vs) \<Rightarrow> Some (Inr \<lparr>icur_keys = ks, icur_values = vs, icur_index = - 1\<rparr>))"

definition NumEntries :: "BTreeIndex \<Rightarrow> 64 word" where
  "NumEntries idx = numEntries idx"

definition IsEmpty :: "BTreeIndex \<Rightarrow> bool" where
  "IsEmpty idx = (NumEntries idx = 0)"

definition Clear :: "BTreeIndex \<Rightarrow> error option \<times> BTreeIndex" where
  "Clear idx = (None, idx\<lparr>tree := NewBTree 128, numEntries := 0\<rparr>)"

definition index_Next :: "btreeIndexCursor \<Rightarrow> bool \<times> btreeIndexCursor" where
  "index_Next c = (icur_index c + 1 < int (length (icur_keys c)), c\<lparr>icur_index := icur_index c + 1\<rparr>)"

text \<open>
  \<open>Key\<close> of the cursor: the application key inside the composite key, \<open>None\<close> for \<open>nil\<close>.
  The length is \<open>int(c[0])<<24 | int(c[1])<<16 | int(c[2])<<8 | int(c[3])\<close>.
\<close>

definition composite_keyLen :: "bytes \<Rightarrow> nat" where
  "composite_keyLen c =
     unat (c ! 0) * 2 ^ 24 + unat (c ! 1) * 2 ^ 16 + unat (c ! 2) * 2 ^ 8 + unat (c ! 3)"

definition index_Key :: "btreeIndexCursor \<Rightarrow> bytes option" where
  "index_Key c =
     (if icur_index c < 0 \<or> icur_index c \<ge> int (length (icur_keys c)) then None
      else let compositeKey = icur_keys c ! nat (icur_index c) in
           if length compositeKey < 4 then None
           else if length compositeKey < 4 + composite_keyLen compositeKey then None
           else Some (take (composite_keyLen compositeKey) (drop 4 compositeKey)))"

definition index_RecordId :: "btreeIndexCursor \<Rightarrow> RecordId" where
  "index_RecordId c =
     (if icur_index c < 0 \<or> icur_index c \<ge> int (length (icur_values c)) then NullRecordId
      else NewRecordIdFromBytes (icur_values c ! nat (icur_index c)))"

text \<open>
  The caller's loop \<open>for cursor.Next() { ... cursor.Key() ... cursor.RecordId() ... }\<close>:
  the entries a cursor yields, in order.
\<close>

function index_entries :: "btreeIndexCursor \<Rightarrow> (bytes option \<times> RecordId) list" where
  "index_entries c =
     (if fst (index_Next c)
      then (index_Key (snd (index_Next c)), index_RecordId (snd (index_Next c)))
             # index_entries (snd (index_Next c))
      else [])"
  by pat_completeness auto
termination
  by (relation "measure (\<lambda>c. nat (int (length (icur_keys c)) - icur_index c))")
     (auto simp: index_Next_def)

section \<open>KVEngine\<close>

record KVEngineConfig =
  CacheSize :: "64 word"
  MaxSessions :: int
  CheckpointEnabled :: bool

text \<open>
  The three registries are Go maps. The sessions carry the world type of their changes.
\<close>

record 'w WiredTigerKVEngine =
  running :: bool
  recordStores :: "string \<rightharpoonup> BTreeRecordStore"
  indexes :: "string \<rightharpoonup> BTreeIndex"
  sessions :: "string \<rightharpoonup> 'w WiredTigerSession"
  sessionCount :: "64 word"
  config :: KVEngineConfig

definition NewKVEngine :: "KVEngineConfig \<Rightarrow> 'w WiredTigerKVEngine" where
  "NewKVEngine cfg =
     \<lparr>running = False, recordStores = Map.empty, indexes = Map.empty, sessions = Map.empty,
      sessionCount = 0,
      config = cfg\<lparr>MaxSessions := (if MaxSessions cfg = 0 then 1000 else MaxSessions cfg),
                    CacheSize := (if CacheSize cfg = 0 then 1024 * 1024 * 1024
                                  else CacheSize cfg)\<rparr>\<rparr>"

definition Start :: "'w WiredTigerKVEngine \<Rightarrow> error option \<times> 'w WiredTigerKVEngine" where
  "Start e = (if running e then (Some EngineAlreadyRunning, e) else (None, e\<lparr>running := True\<rparr>))"

text \<open>
  \<open>CreateSession\<close>: \<open>sid\<close> is the string of the fresh UUID and \<open>now\<close> the time of the call.
\<close>

definition CreateSession ::
  "nat \<Rightarrow> string \<Rightarrow> 'w WiredTigerKVEngine \<Rightarrow>
     (error + 'w WiredTigerSession) \<times> 'w WiredTigerKVEngine" where
  "CreateSession now sid e =
     (if \<not> running e then (Inl EngineNotRunning, e)
      else if int (card (dom (sessions e))) \<ge> MaxSessions (config e)
      then (Inl (SessionLimitExceeded (MaxSessions (config e))), e)
      else case Begin (NewEngineSession now sid) of
             (Some err, s) \<Rightarrow> (Inl (SessionStartFailed err), e)
           | (None, s) \<Rightarrow>
               (Inr s, e\<lparr>sessions := (sessions e)(sid \<mapsto> s),
                          sessionCount := sessionCount e + 1\<rparr>))"

definition GetRecordStore :: "'w WiredTigerKVEngine \<Rightarrow> string \<Rightarrow> error + BTreeRecordStore" where
  "GetRecordStore e ns =
     (case recordStores e ns of None \<Rightarrow> Inl (RecordStoreMissing ns) | Some rs \<Rightarrow> Inr rs)"

definition CreateRecordStore ::
  "string \<Rightarrow> 'w WiredTigerKVEngine \<Rightarrow> (error + BTreeRecordStore) \<times> 'w WiredTigerKVEngine" where
  "CreateRecordStore ns e =
     (case recordStores e ns of
        Some rs \<Rightarrow> (Inl (RecordStoreExists ns), e)
      | None \<Rightarrow> (Inr (NewRecordStore ns),
                  e\<lparr>recordStores := (recordStores e)(ns \<mapsto> NewRecordStore ns)\<rparr>))"

text \<open>
  \<open>DropRecordStore\<close>: after the record store, the loop deletes every index whose registry
  key is longer than the namespace and starts with it.
\<close>

definition DropRecordStore ::
  "string \<Rightarrow> 'w WiredTigerKVEngine \<Rightarrow> error option \<times> 'w WiredTigerKVEngine" where
  "DropRecordStore ns e =
     (case recordStores e ns of
        None \<Rightarrow> (Some (RecordStoreMissing ns), e)
      | Some rs \<Rightarrow>
          (None, e\<lparr>recordStores := (recordStores e)(ns := None),
                    indexes := (\<lambda>key. if length key > length ns \<and> take (length ns) key = ns
                                       then None else indexes e key)\<rparr>))"

definition makeIndexKey :: "string \<Rightarrow> string \<Rightarrow> string" where
  "makeIndexKey ns indexName = ns @ ''.'' @ indexName"

definition GetSortedDataInterface ::
  "'w WiredTigerKVEngine \<Rightarrow> string \<Rightarrow> string \<Rightarrow> error + BTreeIndex" where
  "GetSortedDataInterface e ns indexName =
     (case indexes e (makeIndexKey ns indexName) of
        None \<Rightarrow> Inl (IndexMissing ns indexName)
      | Some idx \<Rightarrow> Inr idx)"

definition CreateSortedDataInterface ::
  "string \<Rightarrow> string \<Rightarrow> bool \<Rightarrow> 'w WiredTigerKVEngine \<Rightarrow>
     (error + BTreeIndex) \<times> 'w WiredTigerKVEngine" where
  "CreateSortedDataInterface ns indexName u e =
     (case indexes e (makeIndexKey ns indexName) of
        Some idx \<Rightarrow> (Inl (IndexExists ns indexName), e)
      | None \<Rightarrow>
          (Inr (NewSortedDataInterface indexName u),
           e\<lparr>indexes := (indexes e)(makeIndexKey ns indexName \<mapsto>
                                       NewSortedDataInterface indexName u)\<rparr>))"

definition DropSortedDataInterface ::
  "string \<Rightarrow> string \<Rightarrow> 'w WiredTigerKVEngine \<Rightarrow> error option \<times> 'w WiredTigerKVEngine" where
  "DropSortedDataInterface ns indexName e =
     (case indexes e (makeIndexKey ns indexName) of
        None \<Rightarrow> (Some (IndexMissing ns indexName), e)
      | Some idx \<Rightarrow> (None, e\<lparr>indexes := (indexes e)(makeIndexKey ns indexName := None)\<rparr>))"

section \<open>Running sequences of operations, and example inputs\<close>


text \<open>The world after the rollback actions of \<open>cs\<close> have run, last to first.\<close>

definition rollbacks_applied :: "'w Change list \<Rightarrow> 'w \<Rightarrow> 'w" where
  "rollbacks_applied cs w = fold (\<lambda>c v. snd (rollbackFunc c v)) (rev cs) w"

text \<open>
  A change that writes each call into a log (the world is the log) and fails or not as its
  two flags say.
\<close>

definition logChange :: "nat \<Rightarrow> bool \<Rightarrow> bool \<Rightarrow> ((string \<times> nat) list) Change" where
  "logChange i cfail rfail =
     \<lparr>commitFunc = (\<lambda>w. (if cfail then Some (CallbackError ''commit'') else None,
                          w @ [(''commit'', i)])),
      rollbackFunc = (\<lambda>w. (if rfail then Some (CallbackError ''rollback'') else None,
                            w @ [(''rollback'', i)]))\<rparr>"

definition activeUnit :: "'w Change list \<Rightarrow> 'w WiredTigerRecoveryUnit" where
  "activeUnit cs =
     \<lparr>state = TxnStateActive, readTimestamp = 1, commitTimestamp = 0, changes = cs,
      snapshot = Map.empty\<rparr>"

definition sessionInTxn :: "'w Change list \<Rightarrow> 'w WiredTigerSession" where
  "sessionInTxn cs =
     \<lparr>sessionId = ''s1'', recoveryUnit = activeUnit cs, active = True, inTransaction = True,
      createdAt = 0\<rparr>"

definition stoppedEngine :: "unit WiredTigerKVEngine" where
  "stoppedEngine = NewKVEngine \<lparr>CacheSize = 0, MaxSessions = 10, CheckpointEnabled = False\<rparr>"

definition twoNamespaces :: "unit WiredTigerKVEngine" where
  "twoNamespaces =
     snd (CreateSortedDataInterface ''db.users2'' ''idx'' False
       (snd (CreateRecordStore ''db.users2''
         (snd (CreateRecordStore ''db.users'' (snd (Start stoppedEngine)))))))"

text \<open>A sequence of \<open>Insert\<close> calls on a tree, and the full range query after it.\<close>

fun insert_all :: "BTree \<Rightarrow> (bytes \<times> bytes) list \<Rightarrow> BTree option" where
  "insert_all t [] = Some t"
| "insert_all t ((k, v) # kvs) =
     (case Insert t k v of None \<Rightarrow> None | Some (r, t') \<Rightarrow> insert_all t' kvs)"

definition range_after_inserts ::
  "int \<Rightarrow> (bytes \<times> bytes) list \<Rightarrow> (bytes list \<times> bytes list) option" where
  "range_after_inserts ord kvs =
     (case insert_all (NewBTree ord) kvs of None \<Rightarrow> None | Some t \<Rightarrow> Range t None None)"

text \<open>A sequence of \<open>Insert\<close> calls on a fresh index, and the entries \<open>Seek\<close> yields after it.\<close>

fun index_insert_all :: "BTreeIndex \<Rightarrow> (bytes \<times> RecordId) list \<Rightarrow> BTreeIndex option" where
  "index_insert_all idx [] = Some idx"
| "index_insert_all idx ((k, r) # krs) =
     (case index_Insert idx k r of None \<Rightarrow> None | Some (e, idx') \<Rightarrow> index_insert_all idx' krs)"

definition seek_after_inserts ::
  "bool \<Rightarrow> (bytes \<times> RecordId) list \<Rightarrow> bytes \<Rightarrow> (bytes option \<times> RecordId) list option" where
  "seek_after_inserts u krs key =
     (case index_insert_all (NewSortedDataInterface ''idx'' u) krs of
        None \<Rightarrow> None
      | Some idx \<Rightarrow> (case Seek idx key of Some (Inr c) \<Rightarrow> Some (index_entries c) | _ \<Rightarrow> None))"

section \<open>The ordering of a B+ tree\<close>

text \<open>
  With \<open>HOL-Library.List_Lexorder\<close>, \<open><\<close> on byte strings is the lexicographic order,
  the order of \<open>bytes.Compare\<close> (lemma \<open>bytes_Compare_lex\<close>).

  \<open>ordered_sub h a lo hi ls\<close>: the nodes below address \<open>a\<close> form a search tree for the
  keys \<open>k\<close> with \<open>lo \<le> k < hi\<close> (\<open>None\<close> is no bound), and \<open>ls\<close> lists its leaves from left
  to right. In a leaf the keys ascend strictly, lie within the bounds and have one value
  each. In an internal node with separators \<open>s1 ... sm\<close> and children \<open>c0 ... cm\<close>, the
  child \<open>ci\<close> is a search tree for the keys from \<open>si\<close> (from \<open>lo\<close> for \<open>c0\<close>) up to
  \<open>s(i+1)\<close> (up to \<open>hi\<close> for \<open>cm\<close>); \<open>ordered_children\<close> walks along the children
  and the separators.
\<close>

definition above :: "bytes option \<Rightarrow> bytes \<Rightarrow> bool" where
  "above lo k = (case lo of None \<Rightarrow> True | Some l \<Rightarrow> l \<le> k)"

definition below :: "bytes option \<Rightarrow> bytes \<Rightarrow> bool" where
  "below hi k = (case hi of None \<Rightarrow> True | Some u \<Rightarrow> k < u)"

inductive ordered_sub :: "Node list \<Rightarrow> nat \<Rightarrow> bytes option \<Rightarrow> bytes option \<Rightarrow> nat list \<Rightarrow> bool"
  and ordered_children ::
    "Node list \<Rightarrow> nat list \<Rightarrow> bytes list \<Rightarrow> bytes option \<Rightarrow> bytes option \<Rightarrow> nat list \<Rightarrow> bool"
  where
  leaf: "\<lbrakk>a < length h; isLeaf (h ! a); length (vals (h ! a)) = length (keys (h ! a));
          sorted_wrt (<) (keys (h ! a)); \<forall>k\<in>set (keys (h ! a)). above lo k \<and> below hi k\<rbrakk>
         \<Longrightarrow> ordered_sub h a lo hi [a]"
| inner: "\<lbrakk>a < length h; \<not> isLeaf (h ! a);
           ordered_children h (children (h ! a)) (keys (h ! a)) lo hi ls\<rbrakk>
          \<Longrightarrow> ordered_sub h a lo hi ls"
| last_child: "ordered_sub h c lo hi ls \<Longrightarrow> ordered_children h [c] [] lo hi ls"
| next_child: "\<lbrakk>ordered_sub h c lo (Some s) ls; above lo s; below hi s;
                ordered_children h cs ss (Some s) hi ls'\<rbrakk>
               \<Longrightarrow> ordered_children h (c # cs) (s # ss) lo hi (ls @ ls')"

text \<open>\<open>leaf_chain h x ls\<close>: following \<open>next\<close> from the pointer \<open>x\<close> visits exactly \<open>ls\<close>.\<close>

fun leaf_chain :: "Node list \<Rightarrow> nat option \<Rightarrow> nat list \<Rightarrow> bool" where
  "leaf_chain h None [] = True"
| "leaf_chain h (Some a) (b # bs) = (a = b \<and> a < length h \<and> leaf_chain h (leafNext (h ! a)) bs)"
| "leaf_chain h None (b # bs) = False"
| "leaf_chain h (Some a) [] = False"

text \<open>
  A tree is ordered when it is a search tree from its root and the chain of leaves runs
  through the leaves from left to right.
\<close>

definition btree_ordered :: "BTree \<Rightarrow> bool" where
  "btree_ordered t =
     (\<exists>ls. ordered_sub (nodes t) (root t) None None ls \<and> leaf_chain (nodes t) (Some (hd ls)) ls)"

text \<open>
  The index contains the entry \<open>(key, recordId)\<close>: the full scan of its tree returns the
  composite key of the entry.
\<close>

definition index_contains :: "BTreeIndex \<Rightarrow> bytes \<Rightarrow> RecordId \<Rightarrow> bool" where
  "index_contains idx key recordId =
     (case Range (tree idx) None None of
        None \<Rightarrow> False
      | Some (ks, vs) \<Rightarrow> makeCompositeKey key recordId \<in> set ks)"

text \<open>The entries (key and value) of a leaf and of a list of leaves.\<close>

definition leaf_entries :: "Node list \<Rightarrow> nat \<Rightarrow> (bytes \<times> bytes) list" where
  "leaf_entries h a = zip (keys (h ! a)) (vals (h ! a))"

definition entries :: "Node list \<Rightarrow> nat list \<Rightarrow> (bytes \<times> bytes) list" where
  "entries h ls = concat (map (leaf_entries h) ls)"

text \<open>
  What \<open>Range\<close> collects from a list of entries: it stops at the first entry at or after
  the start key that is also at or after the end key, and keeps the entries before it that
  are at or after the start key.
\<close>

definition past_end :: "bytes \<Rightarrow> bytes option \<Rightarrow> bytes \<times> bytes \<Rightarrow> bool" where
  "past_end s e kv = (s \<le> fst kv \<and> (case e of None \<Rightarrow> False | Some u \<Rightarrow> u \<le> fst kv))"

definition scan_entries ::
  "bytes \<Rightarrow> bytes option \<Rightarrow> (bytes \<times> bytes) list \<Rightarrow> (bytes \<times> bytes) list" where
  "scan_entries s e es = filter (\<lambda>kv. s \<le> fst kv) (takeWhile (\<lambda>kv. \<not> past_end s e kv) es)"

section \<open>Sequences of inserts into a unique index\<close>




text \<open>
  The same sequence at the size of the real index (order 128): 4160 two-byte keys in
  ascending order, 4032 five-byte keys in ascending order, 128 more two-byte keys, and the
  three-byte key \<open>FF FF FF\<close>, each with its own record id; 8321 inserts. The two-byte key
  number 4224 is then held with record id 4225.
\<close>

definition key2 :: "nat \<Rightarrow> bytes" where
  "key2 i = [word_of_nat (i div 256), word_of_nat i]"

definition key5 :: "nat \<Rightarrow> bytes" where
  "key5 j = [0, 0, 0, word_of_nat (j div 256), word_of_nat j]"

definition uniqueInserts128 :: "(bytes \<times> RecordId) list" where
  "uniqueInserts128 =
     map (\<lambda>i. (key2 i, NewRecordIdFromLong (word_of_nat (i + 1)))) [0..<4160]
     @ map (\<lambda>j. (key5 j, NewRecordIdFromLong (word_of_nat (10001 + j)))) [0..<4032]
     @ map (\<lambda>i. (key2 i, NewRecordIdFromLong (word_of_nat (i + 1)))) [4160..<4288]
     @ [([0xFF, 0xFF, 0xFF], NewRecordIdFromLong 20000)]"

section \<open>Sequences of operations on a record store\<close>

text \<open>
  A call of one of the four operations of the record store that change it, with its
  arguments.
\<close>

datatype rs_op =
    OpInsert RecordId bytes
  | OpUpdate RecordId bytes
  | OpDelete RecordId
  | OpTruncate

definition apply_rs_op ::
  "rs_op \<Rightarrow> BTreeRecordStore \<Rightarrow> (error option \<times> BTreeRecordStore) option" where
  "apply_rs_op op rs =
     (case op of
        OpInsert recordId d \<Rightarrow> InsertRecord rs recordId d
      | OpUpdate recordId d \<Rightarrow> UpdateRecord rs recordId d
      | OpDelete recordId \<Rightarrow> DeleteRecord rs recordId
      | OpTruncate \<Rightarrow> Some (Truncate rs))"

text \<open>
  The calls of a list one after the other, each on the store the call before it left,
  whatever that call returned. The result is \<open>None\<close> when one of the calls does not return.
\<close>

fun run_rs_ops :: "BTreeRecordStore \<Rightarrow> rs_op list \<Rightarrow> BTreeRecordStore option" where
  "run_rs_ops rs [] = Some rs"
| "run_rs_ops rs (op # ops) =
     (case apply_rs_op op rs of
        None \<Rightarrow> None
      | Some (e, rs') \<Rightarrow> run_rs_ops rs' ops)"

text \<open>
  The counters agree with a full scan: \<open>Scan\<close> from the null record id returns a cursor,
  \<open>NumRecords()\<close> is the number of records the cursor yields, and \<open>DataSize()\<close> is the sum
  of the lengths of their payloads.
\<close>

definition payload_size :: "RecordId \<times> bytes option \<Rightarrow> nat" where
  "payload_size r = (case snd r of None \<Rightarrow> 0 | Some d \<Rightarrow> length d)"

definition counters_ok :: "BTreeRecordStore \<Rightarrow> bool" where
  "counters_ok rs =
     (case Scan rs NullRecordId of
        None \<Rightarrow> False
      | Some (Inl e) \<Rightarrow> False
      | Some (Inr c) \<Rightarrow>
          NumRecords rs = word_of_nat (length (cursor_records c)) \<and>
          DataSize rs = word_of_nat (sum_list (map payload_size (cursor_records c))))"

section \<open>What the insertions keep of the shape of a tree\<close>

text \<open>
  The insertions do not keep the tree ordered (\<open>splitLeaf\<close> and \<open>splitInternal\<close> can leave
  a wrong parent pointer behind), but they keep what the counters need. The predicates
  below say what that is; they are about a store of nodes and are not part of the code.

  \<open>node_ok lvl N r X a n\<close>: the node \<open>n\<close> at address \<open>a\<close> fits a store of \<open>N\<close> nodes with
  root \<open>r\<close> and levels \<open>lvl\<close> (leaves have level 0). A leaf has one value for each key, its
  keys ascend strictly and none is empty. An internal node has one child more than keys,
  its children are one level below it, and its keys are above the one-byte key \<open>00\<close>. A
  parent pointer leads to some node one level above, which need not be the node that holds
  \<open>a\<close> as a child. Only the root and the nodes of \<open>X\<close> (the right halves of splits under
  way) have no parent.
\<close>

definition node_ok :: "(nat \<Rightarrow> nat) \<Rightarrow> nat \<Rightarrow> nat \<Rightarrow> nat set \<Rightarrow> nat \<Rightarrow> Node \<Rightarrow> bool" where
  "node_ok lvl N r X a n =
     ((isLeaf n \<longleftrightarrow> lvl a = 0) \<and> lvl a \<le> lvl r \<and>
      (isLeaf n \<longrightarrow>
         length (vals n) = length (keys n) \<and> sorted_wrt (<) (keys n) \<and> [] \<notin> set (keys n)) \<and>
      (\<not> isLeaf n \<longrightarrow>
         length (children n) = length (keys n) + 1 \<and>
         (\<forall>c\<in>set (children n). c < N \<and> Suc (lvl c) = lvl a) \<and>
         (\<forall>s\<in>set (keys n). [0] < s)) \<and>
      (parent n = None \<longrightarrow> a = r \<or> a \<in> X) \<and>
      (\<forall>p. parent n = Some p \<longrightarrow> p < N \<and> lvl p = Suc (lvl a)))"

text \<open>
  \<open>spine S t\<close>: the set \<open>S\<close> holds the root and with each internal node its first child, and
  the only leaf in it is the node at address 0, the leaf the tree started with.
\<close>

definition spine :: "nat set \<Rightarrow> BTree \<Rightarrow> bool" where
  "spine S t =
     (root t \<in> S \<and>
      (\<forall>a\<in>S. a < length (nodes t) \<and> (isLeaf (nodes t ! a) \<longrightarrow> a = 0) \<and>
              (\<not> isLeaf (nodes t ! a) \<longrightarrow> children (nodes t ! a) ! 0 \<in> S)))"

definition shape :: "(nat \<Rightarrow> nat) \<Rightarrow> nat set \<Rightarrow> nat set \<Rightarrow> BTree \<Rightarrow> bool" where
  "shape lvl S X t =
     (3 \<le> order t \<and> root t < length (nodes t) \<and>
      (\<forall>a<length (nodes t). node_ok lvl (length (nodes t)) (root t) X a (nodes t ! a)) \<and>
      spine S t)"

text \<open>
  \<open>chained t ch\<close>: the chain of \<open>next\<close> pointers from the leaf at address 0 runs through
  every leaf of the store once. \<open>tot_count\<close> and \<open>tot_bytes\<close> are the number of keys and
  the number of bytes of the values on a list of leaves.
\<close>

definition chained :: "BTree \<Rightarrow> nat list \<Rightarrow> bool" where
  "chained t ch =
     (leaf_chain (nodes t) (Some 0) ch \<and> distinct ch \<and>
      set ch = {a. a < length (nodes t) \<and> isLeaf (nodes t ! a)})"

definition tot_count :: "Node list \<Rightarrow> nat list \<Rightarrow> nat" where
  "tot_count h ch = sum_list (map (\<lambda>a. length (keys (h ! a))) ch)"

definition tot_bytes :: "Node list \<Rightarrow> nat list \<Rightarrow> nat" where
  "tot_bytes h ch = sum_list (map (\<lambda>a. sum_list (map length (vals (h ! a)))) ch)"

text \<open>
  \<open>frame t t'\<close>: what the work above the leaves (\<open>insertIntoParent\<close>, \<open>splitInternal\<close>, the
  new root) leaves alone on the way from \<open>t\<close> to \<open>t'\<close>. Nodes stay leaves or internal
  nodes, a parent pointer that is set stays set, the leaves keep their keys, values and
  \<open>next\<close> pointers, and the new nodes are internal.
\<close>

definition kept :: "Node \<Rightarrow> Node \<Rightarrow> bool" where
  "kept n n' =
     (isLeaf n' = isLeaf n \<and> (parent n \<noteq> None \<longrightarrow> parent n' \<noteq> None) \<and>
      (isLeaf n \<longrightarrow> keys n' = keys n \<and> vals n' = vals n \<and> leafNext n' = leafNext n))"

definition frame :: "BTree \<Rightarrow> BTree \<Rightarrow> bool" where
  "frame t t' =
     (length (nodes t) \<le> length (nodes t') \<and> order t' = order t \<and>
      (\<forall>a<length (nodes t). kept (nodes t ! a) (nodes t' ! a)) \<and>
      (\<forall>a<length (nodes t'). length (nodes t) \<le> a \<longrightarrow> \<not> isLeaf (nodes t' ! a)))"

text \<open>
  The invariant of a record store: its tree has the shape above with no split under way,
  and the counters are the totals of the chain of leaves.
\<close>

definition rs_inv :: "BTreeRecordStore \<Rightarrow> bool" where
  "rs_inv rs =
     (\<exists>lvl S ch. shape lvl S {} (BTreeRecordStore.tree rs) \<and>
        chained (BTreeRecordStore.tree rs) ch \<and>
        numRecords rs = word_of_nat (tot_count (nodes (BTreeRecordStore.tree rs)) ch) \<and>
        dataSize rs = word_of_nat (tot_bytes (nodes (BTreeRecordStore.tree rs)) ch))"

section \<open>Evaluation lemmas for the tree\<close>

lemma findLeaf_from_leaf:
  "a < length (nodes t) \<Longrightarrow> isLeaf (nodes t ! a) \<Longrightarrow> findLeaf_from t key a = Some a"
  by (subst findLeaf_from.simps) (simp add: node_at_def)

lemma range_walk_None: "range_walk t s e None acc = Some acc"
  by (subst range_walk.simps) simp

lemma range_walk_Some:
  "a < length (nodes t) \<Longrightarrow>
   range_walk t s e (Some a) acc =
     (case range_leaf s e (keys (nodes t ! a)) (vals (nodes t ! a)) 0 acc of
        None \<Rightarrow> None
      | Some (returned, acc') \<Rightarrow>
          if returned then Some acc' else range_walk t s e (leafNext (nodes t ! a)) acc')"
  by (subst range_walk.simps) (simp add: node_at_def)


section \<open>RecordId\<close>

text \<open>
  Claim C3 says that the record id rebuilt from the bytes of \<open>NewRecordIdFromLong x\<close>
  compares equal (\<open>0\<close>) to the original. In the code the rebuilt id has the tag of a byte
  string and the original the tag of an integer, so \<open>Compare\<close> returns the difference of
  the tags, \<open>1\<close>, for every \<open>x\<close>.
\<close>

theorem recordid_roundtrip_compare_is_one:
  "Compare (NewRecordIdFromBytes (fst (AsBytes (NewRecordIdFromLong x)))) (NewRecordIdFromLong x) = 1"
  by (simp add: Compare_def NewRecordIdFromBytes_def NewRecordIdFromLong_def AsBytes_def)

section \<open>RecoveryUnit\<close>



lemma rollbackLoop_first_failure:
  "n \<le> length cs \<Longrightarrow> i < n \<Longrightarrow>
   (\<forall>j. i < j \<and> j < n \<longrightarrow>
        fst (rollbackFunc (cs ! j) (rollbacks_applied (drop (Suc j) (take n cs)) w)) = None) \<Longrightarrow>
   rollbackFunc (cs ! i) (rollbacks_applied (drop (Suc i) (take n cs)) w) = (Some e, w') \<Longrightarrow>
   rollbackLoop cs n w = (Some e, w')"
proof (induction n arbitrary: w)
  case 0
  then show ?case by simp
next
  case (Suc n)
  have tk: "take (Suc n) cs = take n cs @ [cs ! n]"
    using Suc.prems(1) by (simp add: take_Suc_conv_app_nth)
  show ?case
  proof (cases "i = n")
    case True
    with Suc.prems(1,4) have "rollbackFunc (cs ! n) w = (Some e, w')"
      by (simp add: rollbacks_applied_def)
    then show ?thesis by simp
  next
    case False
    with Suc.prems(2) have i: "i < n" by simp
    from Suc.prems(3) i have h0: "fst (rollbackFunc (cs ! n) w) = None"
      using Suc.prems(1) by (auto simp: rollbacks_applied_def dest!: spec [of _ n])
    let ?w1 = "snd (rollbackFunc (cs ! n) w)"
    have dr: "\<And>j. j < n \<Longrightarrow> drop (Suc j) (take (Suc n) cs) = drop (Suc j) (take n cs) @ [cs ! n]"
      using Suc.prems(1) by (simp add: tk)
    have a: "\<forall>j. i < j \<and> j < n \<longrightarrow>
        fst (rollbackFunc (cs ! j) (rollbacks_applied (drop (Suc j) (take n cs)) ?w1)) = None"
    proof (intro allI impI)
      fix j assume j: "i < j \<and> j < n"
      with Suc.prems(3)
      have "fst (rollbackFunc (cs ! j) (rollbacks_applied (drop (Suc j) (take (Suc n) cs)) w)) = None"
        by simp
      with j show "fst (rollbackFunc (cs ! j)
                     (rollbacks_applied (drop (Suc j) (take n cs)) ?w1)) = None"
        by (simp add: dr rollbacks_applied_def)
    qed
    have b: "rollbackFunc (cs ! i) (rollbacks_applied (drop (Suc i) (take n cs)) ?w1) = (Some e, w')"
      using Suc.prems(4) i by (simp add: dr rollbacks_applied_def)
    from Suc.IH [OF _ i a b] Suc.prems(1) have "rollbackLoop cs n ?w1 = (Some e, w')" by simp
    with h0 show ?thesis
      by (cases "rollbackFunc (cs ! n) w") simp
  qed
qed




text \<open>
  Claim C10. In an active transaction, let change \<open>i\<close> be the first whose rollback action
  fails when the rollback actions run from the last registered change downwards (all
  later-registered changes roll back without error), and let it fail with error \<open>e\<close>,
  leaving the world \<open>w'\<close>. Then \<open>Rollback\<close> returns the error that wraps \<open>e\<close>, the world
  is \<open>w'\<close> (the later-registered changes have been rolled back, no earlier one has been
  touched), and the unit is unchanged: still Active, with its change log.
\<close>

theorem rollback_failure_stays_active:
  assumes "state ru = TxnStateActive"
    and "i < length (changes ru)"
    and "\<forall>j. i < j \<and> j < length (changes ru) \<longrightarrow>
            fst (rollbackFunc (changes ru ! j)
                   (rollbacks_applied (drop (Suc j) (changes ru)) w)) = None"
    and "rollbackFunc (changes ru ! i) (rollbacks_applied (drop (Suc i) (changes ru)) w)
           = (Some e, w')"
  shows "Rollback ru w = (Some (RollbackChangeFailed e), ru, w')"
  using rollbackLoop_first_failure [of "length (changes ru)" "changes ru" i w e w'] assms
  by (simp add: Rollback_def)

theorem rollback_failure_stays_active_witness:
  "Rollback (activeUnit [logChange 1 False False, logChange 2 False True,
                         logChange 3 False False]) []
     = (Some (RollbackChangeFailed (CallbackError ''rollback'')),
        activeUnit [logChange 1 False False, logChange 2 False True, logChange 3 False False],
        [(''rollback'', 3), (''rollback'', 2)])"
  using rollback_failure_stays_active
          [of "activeUnit [logChange 1 False False, logChange 2 False True,
                           logChange 3 False False]" 1 "[]"
              "CallbackError ''rollback''" "[(''rollback'', 3), (''rollback'', 2)]"]
  by (simp add: activeUnit_def logChange_def rollbacks_applied_def nth_Cons' less_Suc_eq)

section \<open>Session\<close>

text \<open>
  Claim C7, as amended. For an active session with an open transaction, \<open>End\<close> first rolls
  the transaction back: the recovery unit and the world after \<open>End\<close> are those after
  \<open>Rollback\<close>. If the rollback succeeds, \<open>End\<close> returns no error and the session is
  inactive and out of its transaction. If the rollback fails with \<open>e\<close>, \<open>End\<close> returns the
  error that wraps \<open>e\<close> and the session stays active and in its transaction.
\<close>

theorem session_End_rollback:
  assumes "active s" and "inTransaction s"
  shows "snd (snd (End s w)) = snd (snd (Rollback (recoveryUnit s) w)) \<and>
         recoveryUnit (fst (snd (End s w))) = fst (snd (Rollback (recoveryUnit s) w)) \<and>
         (fst (Rollback (recoveryUnit s) w) = None \<longrightarrow>
            fst (End s w) = None \<and> \<not> session_IsActive (fst (snd (End s w)))
            \<and> \<not> InTransaction (fst (snd (End s w)))) \<and>
         (\<forall>e. fst (Rollback (recoveryUnit s) w) = Some e \<longrightarrow>
            fst (End s w) = Some (EndRollbackFailed e) \<and> session_IsActive (fst (snd (End s w)))
            \<and> InTransaction (fst (snd (End s w))))"
  using assms
  by (cases "Rollback (recoveryUnit s) w")
     (auto simp: End_def session_IsActive_def InTransaction_def split: option.splits)

theorem session_End_rollback_witness:
  "fst (End (sessionInTxn [logChange 1 False True]) [])
     = Some (EndRollbackFailed (RollbackChangeFailed (CallbackError ''rollback''))) \<and>
   session_IsActive (fst (snd (End (sessionInTxn [logChange 1 False True]) []))) \<and>
   fst (End (sessionInTxn [logChange 1 False False]) []) = None \<and>
   \<not> session_IsActive (fst (snd (End (sessionInTxn [logChange 1 False False]) [])))"
  using session_End_rollback [of "sessionInTxn [logChange 1 False True]" "[]"]
        session_End_rollback [of "sessionInTxn [logChange 1 False False]" "[]"]
  by (simp add: sessionInTxn_def activeUnit_def logChange_def Rollback_def)

text \<open>
  Counterexample to claim C7 as stated: the session is active with an open transaction, the
  rollback fails, \<open>End\<close> returns an error and the session is still active.
\<close>

theorem session_End_stays_active:
  "session_IsActive (sessionInTxn [logChange 1 False True]) \<and>
   InTransaction (sessionInTxn [logChange 1 False True]) \<and>
   fst (End (sessionInTxn [logChange 1 False True]) []) \<noteq> None \<and>
   session_IsActive (fst (snd (End (sessionInTxn [logChange 1 False True]) [])))"
  by (simp add: End_def sessionInTxn_def activeUnit_def logChange_def Rollback_def
        session_IsActive_def InTransaction_def)

section \<open>KVEngine\<close>

text \<open>
  Claim C8, as amended. On an engine that is not running, \<open>CreateSession\<close> fails with
  \<open>EngineNotRunning\<close> and leaves the engine unchanged. \<open>CreateRecordStore\<close>,
  \<open>CreateSortedDataInterface\<close>, \<open>DropRecordStore\<close> and \<open>DropSortedDataInterface\<close> do not
  read the running flag: whatever the flag is set to, they return the same result and make
  the same change to the registries.
\<close>

theorem engine_running_guard:
  "(\<not> running e \<longrightarrow> CreateSession now sid e = (Inl EngineNotRunning, e)) \<and>
   CreateRecordStore ns (e\<lparr>running := b\<rparr>) =
     (fst (CreateRecordStore ns e), (snd (CreateRecordStore ns e))\<lparr>running := b\<rparr>) \<and>
   CreateSortedDataInterface ns nm u (e\<lparr>running := b\<rparr>) =
     (fst (CreateSortedDataInterface ns nm u e),
      (snd (CreateSortedDataInterface ns nm u e))\<lparr>running := b\<rparr>) \<and>
   DropRecordStore ns (e\<lparr>running := b\<rparr>) =
     (fst (DropRecordStore ns e), (snd (DropRecordStore ns e))\<lparr>running := b\<rparr>) \<and>
   DropSortedDataInterface ns nm (e\<lparr>running := b\<rparr>) =
     (fst (DropSortedDataInterface ns nm e), (snd (DropSortedDataInterface ns nm e))\<lparr>running := b\<rparr>)"
  by (simp add: CreateSession_def CreateRecordStore_def CreateSortedDataInterface_def
        DropRecordStore_def DropSortedDataInterface_def split: option.splits cong: if_cong)

theorem engine_running_guard_witness:
  "\<not> running stoppedEngine \<and>
   CreateSession 0 ''u1'' stoppedEngine = (Inl EngineNotRunning, stoppedEngine)"
  using engine_running_guard [of stoppedEngine 0 "''u1''"]
  by (simp add: stoppedEngine_def NewKVEngine_def)

text \<open>
  Counterexample to claim C8 as stated: on a new engine that was never started,
  \<open>CreateRecordStore\<close> succeeds and registers the store.
\<close>

theorem create_record_store_when_stopped:
  "\<not> running stoppedEngine \<and>
   fst (CreateRecordStore ''test.collection'' stoppedEngine)
     = Inr (NewRecordStore ''test.collection'') \<and>
   recordStores (snd (CreateRecordStore ''test.collection'' stoppedEngine)) ''test.collection''
     = Some (NewRecordStore ''test.collection'')"
  by (simp add: stoppedEngine_def NewKVEngine_def CreateRecordStore_def)

text \<open>
  Claim C9 says that \<open>DropRecordStore\<close> leaves every index of another namespace
  registered. The engine \<open>twoNamespaces\<close> has the record stores \<open>db.users\<close> and
  \<open>db.users2\<close> and the index \<open>idx\<close> of \<open>db.users2\<close>; dropping \<open>db.users\<close> succeeds and
  removes that index, because its registry key \<open>db.users2.idx\<close> starts with \<open>db.users\<close>.
\<close>

theorem drop_record_store_removes_foreign_index:
  "GetSortedDataInterface twoNamespaces ''db.users2'' ''idx''
     = Inr (NewSortedDataInterface ''idx'' False) \<and>
   fst (DropRecordStore ''db.users'' twoNamespaces) = None \<and>
   GetSortedDataInterface (snd (DropRecordStore ''db.users'' twoNamespaces)) ''db.users2'' ''idx''
     = Inl (IndexMissing ''db.users2'' ''idx'') \<and>
   GetRecordStore (snd (DropRecordStore ''db.users'' twoNamespaces)) ''db.users2''
     = Inr (NewRecordStore ''db.users2'')"
  by (simp add: twoNamespaces_def stoppedEngine_def NewKVEngine_def Start_def
        CreateRecordStore_def CreateSortedDataInterface_def DropRecordStore_def
        GetSortedDataInterface_def GetRecordStore_def makeIndexKey_def)

section \<open>The B+ tree and the index on concrete inputs\<close>

text \<open>
  Claim C1 says that after any sequence of inserts the full range query returns the keys in
  strictly ascending order. On a tree of order 3, after inserting the one-byte keys 10, 20,
  30, 40, 21, 22, 23, 24 in this order, \<open>Range(nil, nil)\<close> returns 10, 20, 21, 24, 22, 23,
  30, 40: the key 24 comes before 22 and 23.
\<close>

theorem btree_range_out_of_order:
  "range_after_inserts 3
     [([10], [1]), ([20], [2]), ([30], [3]), ([40], [4]),
      ([21], [5]), ([22], [6]), ([23], [7]), ([24], [8])]
   = Some ([[10], [20], [21], [24], [22], [23], [30], [40]],
           [[1], [2], [5], [8], [6], [7], [3], [4]])"
  by code_simp

text \<open>
  Claim C2 says that \<open>Seek(k)\<close> yields only the entries of the application key \<open>k\<close>. On a
  non-unique index with one entry under the key \<open>a\<close> (byte 97) and one under the key \<open>b\<close>
  (byte 98), \<open>Seek\<close> of \<open>a\<close> yields both entries.
\<close>

theorem seek_returns_other_key_entries:
  "seek_after_inserts False [([97], NewRecordIdFromLong 1), ([98], NewRecordIdFromLong 2)] [97]
    = Some [(Some [97], NewRecordIdFromBytes [0, 0, 0, 0, 0, 0, 0, 1]),
            (Some [98], NewRecordIdFromBytes [0, 0, 0, 0, 0, 0, 0, 2])]"
  by (simp add: seek_after_inserts_def index_Insert_def index_store_def NewSortedDataInterface_def
        NewBTree_def newLeafNode_def Insert_def findLeaf_def findLeaf_from_leaf insertIntoLeaf_def
        node_at_def upd_node_def insert_at_def bytes_Equal_def
        makeCompositeKey_def makeNextKey_def NewRecordIdFromLong_def NullRecordId_def IsNull_def
        AsBytes_def PutUint64_def Seek_def Range_def nil_bytes_def range_walk_Some range_walk_None
        index_Next_def index_Key_def index_RecordId_def composite_keyLen_def
        NewRecordIdFromBytes_def)

section \<open>Range queries and the uniqueness check on an ordered tree\<close>

lemma bytes_Compare_lex:
  "bytes_Compare a b = (if a < b then - 1 else if a = b then 0 else 1)"
  by (induction a b rule: bytes_Compare.induct) auto

lemma bytes_Compare_ge0 [simp]: "(0 \<le> bytes_Compare a b) = (b \<le> a)"
  by (auto simp: bytes_Compare_lex)

lemma bytes_Compare_gt0 [simp]: "(0 < bytes_Compare a b) = (b < a)"
  by (auto simp: bytes_Compare_lex)

lemma ordered_bounds:
  "ordered_sub h a lo hi ls \<Longrightarrow>
     ls \<noteq> [] \<and> (\<forall>b\<in>set ls. b < length h \<and> length (vals (h ! b)) = length (keys (h ! b)) \<and>
        (\<forall>k\<in>set (keys (h ! b)). above lo k \<and> below hi k))"
  "ordered_children h cs ss lo hi ls \<Longrightarrow>
     ls \<noteq> [] \<and> (\<forall>b\<in>set ls. b < length h \<and> length (vals (h ! b)) = length (keys (h ! b)) \<and>
        (\<forall>k\<in>set (keys (h ! b)). above lo k \<and> below hi k))"
proof (induction rule: ordered_sub_ordered_children.inducts)
  case (next_child h c lo s ls hi cs ss ls')
  have A: "\<forall>b\<in>set ls. b < length h \<and> length (vals (h ! b)) = length (keys (h ! b)) \<and>
        (\<forall>k\<in>set (keys (h ! b)). above lo k \<and> below hi k)"
  proof
    fix b assume b: "b \<in> set ls"
    have "\<forall>k\<in>set (keys (h ! b)). above lo k \<and> below hi k"
    proof
      fix k assume "k \<in> set (keys (h ! b))"
      with next_child.IH(1) b have "above lo k" "k < s" by (auto simp: below_def)
      with next_child.hyps(3) show "above lo k \<and> below hi k"
        by (cases hi) (auto simp: below_def)
    qed
    with next_child.IH(1) b
    show "b < length h \<and> length (vals (h ! b)) = length (keys (h ! b)) \<and>
        (\<forall>k\<in>set (keys (h ! b)). above lo k \<and> below hi k)" by simp
  qed
  have B: "\<forall>b\<in>set ls'. b < length h \<and> length (vals (h ! b)) = length (keys (h ! b)) \<and>
        (\<forall>k\<in>set (keys (h ! b)). above lo k \<and> below hi k)"
  proof
    fix b assume b: "b \<in> set ls'"
    have "\<forall>k\<in>set (keys (h ! b)). above lo k \<and> below hi k"
    proof
      fix k assume "k \<in> set (keys (h ! b))"
      with next_child.IH(2) b have "s \<le> k" "below hi k" by (auto simp: above_def)
      with next_child.hyps(2) show "above lo k \<and> below hi k"
        by (cases lo) (auto simp: above_def)
    qed
    with next_child.IH(2) b
    show "b < length h \<and> length (vals (h ! b)) = length (keys (h ! b)) \<and>
        (\<forall>k\<in>set (keys (h ! b)). above lo k \<and> below hi k)" by simp
  qed
  from A B next_child.IH(1) show ?case by auto
qed auto

lemma set_entries_keys:
  "\<forall>b\<in>set ls. length (vals (h ! b)) = length (keys (h ! b)) \<Longrightarrow>
   map fst (entries h ls) = concat (map (\<lambda>b. keys (h ! b)) ls)"
  by (induction ls) (auto simp: entries_def leaf_entries_def)

lemma ordered_sorted:
  "ordered_sub h a lo hi ls \<Longrightarrow> sorted_wrt (<) (concat (map (\<lambda>b. keys (h ! b)) ls))"
  "ordered_children h cs ss lo hi ls \<Longrightarrow> sorted_wrt (<) (concat (map (\<lambda>b. keys (h ! b)) ls))"
proof (induction rule: ordered_sub_ordered_children.inducts)
  case (next_child h c lo s ls hi cs ss ls')
  have l: "\<forall>x\<in>set (concat (map (\<lambda>b. keys (h ! b)) ls)). x < s"
    using ordered_bounds(1) [OF next_child.hyps(1)] by (auto simp: below_def)
  have r: "\<forall>y\<in>set (concat (map (\<lambda>b. keys (h ! b)) ls')). s \<le> y"
    using ordered_bounds(2) [OF next_child.hyps(4)] by (auto simp: above_def)
  from l r have "\<forall>x\<in>set (concat (map (\<lambda>b. keys (h ! b)) ls)).
                   \<forall>y\<in>set (concat (map (\<lambda>b. keys (h ! b)) ls')). x < y"
    by (meson less_le_trans)
  with next_child.IH show ?case
    by (simp add: sorted_wrt_append)
qed auto



lemma child_index_le: "child_index key ss \<le> length ss"
  by (induction ss) auto

lemma ordered_findLeaf:
  "ordered_sub h a lo hi ls \<Longrightarrow> nodes t = h \<Longrightarrow>
     \<exists>pre lf post. ls = pre @ lf # post \<and> findLeaf_from t key a = Some lf \<and>
        (\<forall>b\<in>set pre. \<forall>k\<in>set (keys (h ! b)). k < key)"
  "ordered_children h cs ss lo hi ls \<Longrightarrow> nodes t = h \<Longrightarrow>
     child_index key ss < length cs \<and>
     (\<exists>pre lf post. ls = pre @ lf # post \<and>
        findLeaf_from t key (cs ! child_index key ss) = Some lf \<and>
        (\<forall>b\<in>set pre. \<forall>k\<in>set (keys (h ! b)). k < key))"
proof (induction rule: ordered_sub_ordered_children.inducts)
  case (leaf a h lo hi)
  then have "findLeaf_from t key a = Some a"
    by (subst findLeaf_from.simps) (simp add: node_at_def)
  then have "[a] = [] @ a # [] \<and> findLeaf_from t key a = Some a \<and>
        (\<forall>b\<in>set []. \<forall>k\<in>set (keys (h ! b)). k < key)" by simp
  then show ?case by (intro exI)
next
  case (inner a h lo hi ls)
  from inner.IH [OF inner.prems] obtain pre lf post where
    i: "child_index key (keys (h ! a)) < length (children (h ! a))" and
    p: "ls = pre @ lf # post"
       "findLeaf_from t key (children (h ! a) ! child_index key (keys (h ! a))) = Some lf"
       "\<forall>b\<in>set pre. \<forall>k\<in>set (keys (h ! b)). k < key"
    by auto
  have "findLeaf_from t key a = Some lf"
    using inner.hyps(1,2) inner.prems i p(2)
    by (subst findLeaf_from.simps) (simp add: node_at_def)
  with p(1,3) have "ls = pre @ lf # post \<and> findLeaf_from t key a = Some lf \<and>
        (\<forall>b\<in>set pre. \<forall>k\<in>set (keys (h ! b)). k < key)" by simp
  then show ?case by (intro exI)
next
  case (last_child h c lo hi ls)
  then show ?case by simp
next
  case (next_child h c lo s ls hi cs ss ls')
  show ?case
  proof (cases "s \<le> key")
    case True
    from next_child.IH(2) [OF next_child.prems] obtain pre lf post where
      i: "child_index key ss < length cs" and
      p: "ls' = pre @ lf # post"
         "findLeaf_from t key (cs ! child_index key ss) = Some lf"
         "\<forall>b\<in>set pre. \<forall>k\<in>set (keys (h ! b)). k < key"
      by auto
    have l: "\<forall>b\<in>set ls. \<forall>k\<in>set (keys (h ! b)). k < key"
      using ordered_bounds(1) [OF next_child.hyps(1)] True
      by (auto simp: below_def intro: less_le_trans)
    have "ls @ ls' = (ls @ pre) @ lf # post \<and>
          findLeaf_from t key ((c # cs) ! child_index key (s # ss)) = Some lf \<and>
          (\<forall>b\<in>set (ls @ pre). \<forall>k\<in>set (keys (h ! b)). k < key)"
      using l p True by auto
    then have "\<exists>pre lf post. ls @ ls' = pre @ lf # post \<and>
          findLeaf_from t key ((c # cs) ! child_index key (s # ss)) = Some lf \<and>
          (\<forall>b\<in>set pre. \<forall>k\<in>set (keys (h ! b)). k < key)"
      by (intro exI)
    moreover have "child_index key (s # ss) < length (c # cs)" using True i by simp
    ultimately show ?thesis by simp
  next
    case False
    from next_child.IH(1) [OF next_child.prems] obtain pre lf post where
      p: "ls = pre @ lf # post" "findLeaf_from t key c = Some lf"
         "\<forall>b\<in>set pre. \<forall>k\<in>set (keys (h ! b)). k < key"
      by auto
    have "ls @ ls' = pre @ lf # (post @ ls') \<and>
          findLeaf_from t key ((c # cs) ! child_index key (s # ss)) = Some lf \<and>
          (\<forall>b\<in>set pre. \<forall>k\<in>set (keys (h ! b)). k < key)"
      using p False by auto
    then have "\<exists>pre lf post. ls @ ls' = pre @ lf # post \<and>
          findLeaf_from t key ((c # cs) ! child_index key (s # ss)) = Some lf \<and>
          (\<forall>b\<in>set pre. \<forall>k\<in>set (keys (h ! b)). k < key)"
      by (intro exI)
    moreover have "child_index key (s # ss) < length (c # cs)" using False by simp
    ultimately show ?thesis by simp
  qed
qed

lemma range_leaf_char:
  "length vs = i + length ks \<Longrightarrow>
   range_leaf s e ks vs i acc =
     Some (\<exists>kv\<in>set (zip ks (drop i vs)). past_end s e kv,
           fst acc @ map fst (scan_entries s e (zip ks (drop i vs))),
           snd acc @ map snd (scan_entries s e (zip ks (drop i vs))))"
proof (induction ks arbitrary: i acc)
  case Nil
  then show ?case by (simp add: scan_entries_def)
next
  case (Cons k ks)
  then have i: "i < length vs" by simp
  then have d: "drop i vs = vs ! i # drop (Suc i) vs"
    by (simp add: Cons_nth_drop_Suc)
  from Cons.prems have l: "length vs = Suc i + length ks" by simp
  show ?case
  proof (cases "past_end s e (k, vs ! i)")
    case True
    then show ?thesis
      by (auto simp: d scan_entries_def past_end_def split: option.splits)
  next
    case False
    show ?thesis
    proof (cases "s \<le> k")
      case True
      with False have ne: "\<not> (e \<noteq> None \<and> the e \<le> k)"
        by (auto simp: past_end_def split: option.splits)
      from True ne i have "range_leaf s e (k # ks) vs i acc =
             range_leaf s e ks vs (Suc i) (fst acc @ [k], snd acc @ [vs ! i])"
        by auto
      also note Cons.IH [OF l]
      finally show ?thesis using True False
        by (simp add: d scan_entries_def)
    next
      case nle: False
      then have "range_leaf s e (k # ks) vs i acc = range_leaf s e ks vs (Suc i) acc"
        by simp
      also note Cons.IH [OF l]
      finally show ?thesis using nle False
        by (simp add: d scan_entries_def)
    qed
  qed
qed

lemma range_walk_chain:
  "leaf_chain h x cs \<Longrightarrow> nodes t = h \<Longrightarrow>
   \<forall>b\<in>set cs. length (vals (h ! b)) = length (keys (h ! b)) \<Longrightarrow>
   range_walk t s e x acc =
     Some (fst acc @ map fst (scan_entries s e (entries h cs)),
           snd acc @ map snd (scan_entries s e (entries h cs)))"
proof (induction h x cs arbitrary: acc rule: leaf_chain.induct)
  case (1 h)
  then show ?case by (simp add: range_walk_None scan_entries_def entries_def)
next
  case (2 h a b bs)
  then have ab: "a = b" and a: "a < length (nodes t)" and
    ch: "leaf_chain h (leafNext (h ! a)) bs" by auto
  let ?le = "leaf_entries h a"
  have len: "length (vals (h ! a)) = 0 + length (keys (h ! a))" using 2 by simp
  have rl: "range_leaf s e (keys (h ! a)) (vals (h ! a)) 0 acc =
     Some (\<exists>kv\<in>set ?le. past_end s e kv,
           fst acc @ map fst (scan_entries s e ?le),
           snd acc @ map snd (scan_entries s e ?le))"
    using range_leaf_char [OF len, of s e acc] by (simp add: leaf_entries_def)
  have en: "entries h (b # bs) = ?le @ entries h bs"
    using ab by (simp add: entries_def)
  show ?case
  proof (cases "\<exists>kv\<in>set ?le. past_end s e kv")
    case True
    then obtain kv where kv: "kv \<in> set ?le" "past_end s e kv" by blast
    then have "takeWhile (\<lambda>kv. \<not> past_end s e kv) (?le @ entries h bs) =
               takeWhile (\<lambda>kv. \<not> past_end s e kv) ?le"
      by (intro takeWhile_append1 [of kv]) auto
    then have "scan_entries s e (entries h (b # bs)) = scan_entries s e ?le"
      by (simp add: en scan_entries_def)
    with True rl a 2(3) show ?thesis
      by (simp add: range_walk_Some)
  next
    case False
    then have tw1: "takeWhile (\<lambda>kv. \<not> past_end s e kv) (?le @ entries h bs) =
               ?le @ takeWhile (\<lambda>kv. \<not> past_end s e kv) (entries h bs)"
      by (intro takeWhile_append2) auto
    have tw2: "takeWhile (\<lambda>kv. \<not> past_end s e kv) ?le = ?le"
      using False by (intro takeWhile_eq_all_conv [THEN iffD2]) auto
    have sc: "scan_entries s e (entries h (b # bs)) =
                   scan_entries s e ?le @ scan_entries s e (entries h bs)"
      by (simp add: en scan_entries_def tw1 tw2)
    have "range_walk t s e (leafNext (h ! a))
            (fst acc @ map fst (scan_entries s e ?le), snd acc @ map snd (scan_entries s e ?le)) =
          Some ((fst acc @ map fst (scan_entries s e ?le)) @ map fst (scan_entries s e (entries h bs)),
                (snd acc @ map snd (scan_entries s e ?le)) @ map snd (scan_entries s e (entries h bs)))"
      using "2.IH" [OF ch "2.prems"(2),
              of "(fst acc @ map fst (scan_entries s e ?le), snd acc @ map snd (scan_entries s e ?le))"]
            "2.prems"(3)
      by simp
    with False rl a 2(3) show ?thesis
      by (simp add: range_walk_Some sc)
  qed
qed auto

lemma leaf_chain_suffix:
  "leaf_chain h x (pre @ lf # post) \<Longrightarrow> leaf_chain h (Some lf) (lf # post)"
proof (induction pre arbitrary: x)
  case Nil
  then show ?case by (cases x) auto
next
  case (Cons p pre)
  then show ?case by (cases x) auto
qed

lemma Range_ordered:
  assumes o: "ordered_sub (nodes t) (root t) None None ls"
    and c: "leaf_chain (nodes t) (Some (hd ls)) ls"
  shows "\<exists>pre lf post. ls = pre @ lf # post \<and>
           (\<forall>b\<in>set pre. \<forall>k\<in>set (keys (nodes t ! b)). k < nil_bytes sk) \<and>
           Range t sk e =
             Some (map fst (scan_entries (nil_bytes sk) e (entries (nodes t) (lf # post))),
                   map snd (scan_entries (nil_bytes sk) e (entries (nodes t) (lf # post))))"
proof -
  from ordered_findLeaf(1) [OF o refl, of "nil_bytes sk"] obtain pre lf post where
    p: "ls = pre @ lf # post" "findLeaf_from t (nil_bytes sk) (root t) = Some lf"
       "\<forall>b\<in>set pre. \<forall>k\<in>set (keys (nodes t ! b)). k < nil_bytes sk"
    by auto
  from c p(1) have ch: "leaf_chain (nodes t) (Some lf) (lf # post)"
    using leaf_chain_suffix by blast
  have len: "\<forall>b\<in>set (lf # post). length (vals (nodes t ! b)) = length (keys (nodes t ! b))"
    using ordered_bounds(1) [OF o] p(1) by auto
  have "range_walk t (nil_bytes sk) e (Some lf) ([], []) =
          Some (map fst (scan_entries (nil_bytes sk) e (entries (nodes t) (lf # post))),
                map snd (scan_entries (nil_bytes sk) e (entries (nodes t) (lf # post))))"
    using range_walk_chain [OF ch refl len, of "nil_bytes sk" e "([], [])"] by simp
  with p(2) have "Range t sk e =
             Some (map fst (scan_entries (nil_bytes sk) e (entries (nodes t) (lf # post))),
                   map snd (scan_entries (nil_bytes sk) e (entries (nodes t) (lf # post))))"
    by (simp add: Range_def findLeaf_def)
  with p(1,3) show ?thesis by blast
qed

lemma scan_entries_all: "scan_entries [] None es = es"
  by (simp add: scan_entries_def past_end_def)

lemma in_scan_entries:
  assumes "sorted_wrt (<) (map fst es)" and "kv \<in> set es" and "s \<le> fst kv" and "fst kv < u"
  shows "kv \<in> set (scan_entries s (Some u) es)"
proof -
  from assms(2) obtain xs ys where es: "es = xs @ kv # ys" by (meson split_list)
  with assms(1) have "\<forall>x\<in>set xs. fst x < fst kv"
    by (auto simp: sorted_wrt_append)
  with assms(4) have "\<forall>x\<in>set xs. \<not> past_end s (Some u) x"
    by (auto simp: past_end_def)
  then have "takeWhile (\<lambda>kv. \<not> past_end s (Some u) kv) (xs @ kv # ys) =
             xs @ takeWhile (\<lambda>kv. \<not> past_end s (Some u) kv) (kv # ys)"
    by (intro takeWhile_append2) auto
  moreover have "\<not> past_end s (Some u) kv" using assms(4) by (auto simp: past_end_def)
  ultimately show ?thesis using assms(3) by (simp add: es scan_entries_def)
qed

lemma le_append_self: "(xs :: bytes) \<le> xs @ ys"
  by (induction xs) auto

lemma less_append_same_length:
  "length a = length b \<Longrightarrow> (a :: bytes) < b \<Longrightarrow> a @ x < b @ y"
  by (induction a b rule: list_induct2) auto

lemma step256:
  "(x::nat) < y \<Longrightarrow> x div 256 < y div 256 \<or> (x div 256 = y div 256 \<and> x mod 256 < y mod 256)"
proof -
  assume a: "x < y"
  have "x div 256 \<le> y div 256" using a by (simp add: div_le_mono)
  moreover have "x div 256 = y div 256 \<Longrightarrow> x mod 256 < y mod 256"
  proof -
    assume e: "x div 256 = y div 256"
    have "x = x div 256 * 256 + x mod 256" "y = y div 256 * 256 + y mod 256" by simp_all
    with e a show ?thesis by linarith
  qed
  ultimately show ?thesis by linarith
qed

lemma be32_less:
  assumes "m < n" and "n < 2 ^ 32"
  shows "[word_of_nat (m div 2 ^ 24), word_of_nat (m div 2 ^ 16),
          word_of_nat (m div 2 ^ 8), word_of_nat m :: byte]
       < [word_of_nat (n div 2 ^ 24), word_of_nat (n div 2 ^ 16),
          word_of_nat (n div 2 ^ 8), word_of_nat n]"
proof -
  let ?m1 = "m div 256" and ?n1 = "n div 256"
  let ?m2 = "?m1 div 256" and ?n2 = "?n1 div 256"
  let ?m3 = "?m2 div 256" and ?n3 = "?n2 div 256"
  have dm: "m div 2 ^ 24 = ?m3" "m div 2 ^ 16 = ?m2" "m div 2 ^ 8 = ?m1"
    by (simp_all add: div_mult2_eq [symmetric])
  have dn: "n div 2 ^ 24 = ?n3" "n div 2 ^ 16 = ?n2" "n div 2 ^ 8 = ?n1"
    by (simp_all add: div_mult2_eq [symmetric])
  have n3: "?n3 < 256"
    using assms(2) by (simp add: div_mult2_eq [symmetric] less_mult_imp_div_less)
  have mn3: "?m3 \<le> ?n3" using assms(1) by (simp add: div_le_mono)
  have u: "\<And>x. unat (word_of_nat x :: byte) = x mod 256"
    by (simp add: unat_of_nat)
  have lt: "\<And>x y. ((word_of_nat x :: byte) < word_of_nat y) = (x mod 256 < y mod 256)"
    by (simp add: word_less_nat_alt u)
  have eq: "\<And>x y. ((word_of_nat x :: byte) = word_of_nat y) = (x mod 256 = y mod 256)"
    by (simp add: word_unat_eq_iff u)
  have s1: "?m1 < ?n1 \<or> (?m1 = ?n1 \<and> m mod 256 < n mod 256)"
    using step256 [OF assms(1)] .
  have s2: "?m1 < ?n1 \<Longrightarrow> ?m2 < ?n2 \<or> (?m2 = ?n2 \<and> ?m1 mod 256 < ?n1 mod 256)"
    by (rule step256)
  have s3: "?m2 < ?n2 \<Longrightarrow> ?m3 < ?n3 \<or> (?m3 = ?n3 \<and> ?m2 mod 256 < ?n2 mod 256)"
    by (rule step256)
  have m3: "?m3 mod 256 = ?m3" "?n3 mod 256 = ?n3" using n3 mn3 by simp_all
  show ?thesis
    unfolding dm dn Cons_less_Cons lt eq m3
    using s1 s2 s3 by fastforce
qed

lemma composite_in_seek_range:
  assumes "length k + 1 < 2 ^ 32"
  shows "makeCompositeKey k NullRecordId \<le> makeCompositeKey k r"
    and "makeCompositeKey k r < makeNextKey k"
proof -
  show "makeCompositeKey k NullRecordId \<le> makeCompositeKey k r"
    using le_append_self [of "[word_of_nat (length k div 2 ^ 24), word_of_nat (length k div 2 ^ 16),
          word_of_nat (length k div 2 ^ 8), word_of_nat (length k)] @ k" "fst (AsBytes r)"]
    by (simp add: makeCompositeKey_def NullRecordId_def AsBytes_def)
  have "[word_of_nat (length k div 2 ^ 24), word_of_nat (length k div 2 ^ 16),
          word_of_nat (length k div 2 ^ 8), word_of_nat (length k) :: byte]
       < [word_of_nat ((length k + 1) div 2 ^ 24), word_of_nat ((length k + 1) div 2 ^ 16),
          word_of_nat ((length k + 1) div 2 ^ 8), word_of_nat (length k + 1)]"
    using assms by (intro be32_less) auto
  from less_append_same_length [OF _ this, of "k @ fst (AsBytes r)" "(k @ [0xFF]) @ fst (AsBytes NullRecordId)"]
  show "makeCompositeKey k r < makeNextKey k"
    by (simp add: makeCompositeKey_def makeNextKey_def)
qed


text \<open>
  On an ordered tree the uniqueness check finds every entry that the index contains
  (for keys shorter than \<open>2^32 - 1\<close> bytes).
\<close>

lemma keyExists_ordered:
  assumes o: "btree_ordered (tree idx)" and c: "index_contains idx k r0"
    and len: "length k + 1 < 2 ^ 32"
  shows "keyExists idx k = Some True"
proof -
  let ?t = "tree idx" and ?h = "nodes (tree idx)"
  let ?ck = "makeCompositeKey k r0"
  let ?s = "makeCompositeKey k NullRecordId" and ?u = "makeNextKey k"
  from o obtain ls where
    os: "ordered_sub ?h (root ?t) None None ls" and ch: "leaf_chain ?h (Some (hd ls)) ls"
    by (auto simp: btree_ordered_def)
  have lens: "\<forall>b\<in>set ls. length (vals (?h ! b)) = length (keys (?h ! b))"
    using ordered_bounds(1) [OF os] by simp
  have srt: "sorted_wrt (<) (concat (map (\<lambda>b. keys (?h ! b)) ls))"
    by (rule ordered_sorted(1) [OF os])
  \<comment> \<open>the full scan lists the entries of all leaves\<close>
  from Range_ordered [OF os ch, of None None] obtain pre0 lf0 post0 where
    p0: "ls = pre0 @ lf0 # post0" "\<forall>b\<in>set pre0. \<forall>k\<in>set (keys (?h ! b)). k < []"
        "Range ?t None None =
           Some (map fst (entries ?h (lf0 # post0)), map snd (entries ?h (lf0 # post0)))"
    by (auto simp: nil_bytes_def scan_entries_all)
  from c p0(3) have "?ck \<in> set (map fst (entries ?h (lf0 # post0)))"
    by (simp add: index_contains_def)
  then have "?ck \<in> set (concat (map (\<lambda>b. keys (?h ! b)) (lf0 # post0)))"
    using set_entries_keys [of "lf0 # post0" ?h] lens p0(1) by auto
  then have inall: "?ck \<in> set (concat (map (\<lambda>b. keys (?h ! b)) ls))"
    using p0(1) by auto
  \<comment> \<open>the scan of the uniqueness check\<close>
  from Range_ordered [OF os ch, of "Some ?s" "Some ?u"] obtain pre lf post where
    p: "ls = pre @ lf # post" "\<forall>b\<in>set pre. \<forall>k\<in>set (keys (?h ! b)). k < ?s"
       "Range ?t (Some ?s) (Some ?u) =
           Some (map fst (scan_entries ?s (Some ?u) (entries ?h (lf # post))),
                 map snd (scan_entries ?s (Some ?u) (entries ?h (lf # post))))"
    by (auto simp: nil_bytes_def)
  have ge: "?s \<le> ?ck" and lt: "?ck < ?u"
    using composite_in_seek_range [OF len] by auto
  have "?ck \<notin> set (concat (map (\<lambda>b. keys (?h ! b)) pre))"
  proof
    assume "?ck \<in> set (concat (map (\<lambda>b. keys (?h ! b)) pre))"
    then obtain b where "b \<in> set pre" "?ck \<in> set (keys (?h ! b))" by auto
    with p(2) have "?ck < ?s" by blast
    with ge show False by simp
  qed
  with inall p(1) have "?ck \<in> set (concat (map (\<lambda>b. keys (?h ! b)) (lf # post)))"
    by auto
  then have "?ck \<in> set (map fst (entries ?h (lf # post)))"
    using set_entries_keys [of "lf # post" ?h] lens p(1) by auto
  then obtain v where kv: "(?ck, v) \<in> set (entries ?h (lf # post))" by auto
  have "sorted_wrt (<) (concat (map (\<lambda>b. keys (?h ! b)) (lf # post)))"
    using srt p(1) by (simp add: sorted_wrt_append)
  then have "sorted_wrt (<) (map fst (entries ?h (lf # post)))"
    using set_entries_keys [of "lf # post" ?h] lens p(1) by auto
  from in_scan_entries [OF this kv, of ?s ?u] ge lt
  have "(?ck, v) \<in> set (scan_entries ?s (Some ?u) (entries ?h (lf # post)))" by simp
  then have "scan_entries ?s (Some ?u) (entries ?h (lf # post)) \<noteq> []" by auto
  with p(3) show ?thesis by (simp add: keyExists_def)
qed

section \<open>The unique index after the parent pointer of a leaf went wrong\<close>



section \<open>The counters of the record store\<close>

subsection \<open>The shape of the tree: levels, parents and the leftmost path\<close>

lemma shapeD:
  assumes "shape lvl S L t"
  shows "3 \<le> order t" "root t < length (nodes t)"
    "\<And>a. a < length (nodes t) \<Longrightarrow> node_ok lvl (length (nodes t)) (root t) L a (nodes t ! a)"
    "spine S t"
  using assms by (simp_all add: shape_def)

lemma node_ok_inner:
  assumes "node_ok lvl N r L a n" and "\<not> isLeaf n"
  shows "length (children n) = length (keys n) + 1"
    "\<And>c. c \<in> set (children n) \<Longrightarrow> c < N \<and> Suc (lvl c) = lvl a"
    "\<And>s. s \<in> set (keys n) \<Longrightarrow> [0] < s"
  using assms by (simp_all add: node_ok_def)

lemma spineD:
  assumes "spine S t" and "a \<in> S"
  shows "a < length (nodes t)" "isLeaf (nodes t ! a) \<Longrightarrow> a = 0"
    "\<not> isLeaf (nodes t ! a) \<Longrightarrow> children (nodes t ! a) ! 0 \<in> S"
  using assms by (simp_all add: spine_def)

lemma findLeaf_shape:
  assumes "shape lvl S L t"
  shows "a < length (nodes t) \<Longrightarrow>
         \<exists>lf. findLeaf_from t key a = Some lf \<and> lf < length (nodes t) \<and> isLeaf (nodes t ! lf)"
proof (induction "lvl a" arbitrary: a rule: less_induct)
  case less
  show ?case
  proof (cases "isLeaf (nodes t ! a)")
    case True
    with less.prems show ?thesis by (simp add: findLeaf_from_leaf)
  next
    case False
    let ?n = "nodes t ! a"
    let ?i = "child_index key (keys ?n)"
    note ok = shapeD(3) [OF assms less.prems]
    have len: "length (children ?n) = length (keys ?n) + 1" and
      ch: "\<forall>c\<in>set (children ?n). c < length (nodes t) \<and> Suc (lvl c) = lvl a"
      using node_ok_inner [OF ok False] by simp_all
    have i: "?i < length (children ?n)" using child_index_le [of key "keys ?n"] len by simp
    then have "children ?n ! ?i \<in> set (children ?n)" by simp
    with ch have c: "children ?n ! ?i < length (nodes t)" "lvl (children ?n ! ?i) < lvl a"
      by auto
    from less.hyps [OF c(2) c(1)] obtain lf where
      "findLeaf_from t key (children ?n ! ?i) = Some lf" "lf < length (nodes t)"
      "isLeaf (nodes t ! lf)" by auto
    moreover have "findLeaf_from t key a = findLeaf_from t key (children ?n ! ?i)"
      using less.prems False i by (subst findLeaf_from.simps) (simp add: node_at_def)
    ultimately show ?thesis by simp
  qed
qed

lemma child_index_zero: "\<forall>s\<in>set ss. key < s \<Longrightarrow> child_index key ss = 0"
  by (cases ss) auto

lemma findLeaf_first:
  assumes "shape lvl S L t"
  shows "a \<in> S \<Longrightarrow> findLeaf_from t [0] a = Some 0"
proof (induction "lvl a" arbitrary: a rule: less_induct)
  case less
  note sp = shapeD(4) [OF assms]
  from spineD(1) [OF sp less.prems] have a: "a < length (nodes t)" .
  show ?case
  proof (cases "isLeaf (nodes t ! a)")
    case True
    with spineD(2) [OF sp less.prems] have "a = 0" by simp
    with True a show ?thesis by (simp add: findLeaf_from_leaf)
  next
    case False
    let ?n = "nodes t ! a"
    note ok = shapeD(3) [OF assms a]
    have len: "length (children ?n) = length (keys ?n) + 1" and
      ch: "\<forall>c\<in>set (children ?n). c < length (nodes t) \<and> Suc (lvl c) = lvl a" and
      ks: "\<forall>s\<in>set (keys ?n). [0] < s"
      using node_ok_inner [OF ok False] by simp_all
    have i: "child_index [0] (keys ?n) = 0" using ks by (rule child_index_zero)
    from spineD(3) [OF sp less.prems False] have s: "children ?n ! 0 \<in> S" .
    have "children ?n ! 0 \<in> set (children ?n)" using len by simp
    with ch have "lvl (children ?n ! 0) < lvl a" by auto
    from less.hyps [OF this s] have "findLeaf_from t [0] (children ?n ! 0) = Some 0" .
    moreover have "findLeaf_from t [0] a = findLeaf_from t [0] (children ?n ! 0)"
      using a False i len by (subst findLeaf_from.simps) (simp add: node_at_def)
    ultimately show ?thesis by simp
  qed
qed

lemma nonempty_ge_zero: "k \<noteq> [] \<Longrightarrow> [0 :: byte] \<le> k"
  by (cases k) (auto simp: word_gt_0)

subsection \<open>Keys of a leaf, the chain of leaves and its totals\<close>

lemma upd_node_simps [simp]:
  "nodes (upd_node a f t) = (nodes t)[a := f (nodes t ! a)]"
  "root (upd_node a f t) = root t"
  "order (upd_node a f t) = order t"
  by (simp_all add: upd_node_def)

lemma insert_pos_le: "insert_pos k ks \<le> length ks"
  by (induction ks) auto

lemma insert_pos_hit:
  "sorted_wrt (<) ks \<Longrightarrow>
   (insert_pos k ks < length ks \<and> ks ! insert_pos k ks = k) = (k \<in> set ks)"
proof (induction ks)
  case Nil
  then show ?case by simp
next
  case (Cons x xs)
  show ?case
  proof (cases "x < k")
    case True
    with Cons show ?thesis by auto
  next
    case False
    then have "k \<le> x" by simp
    with Cons.prems have "k \<in> set xs \<Longrightarrow> False" by fastforce
    with False show ?thesis by auto
  qed
qed

lemma sorted_insert_at:
  "sorted_wrt (<) ks \<Longrightarrow> k \<notin> set ks \<Longrightarrow>
   sorted_wrt (<) (insert_at (insert_pos k ks) k ks) \<and>
   set (insert_at (insert_pos k ks) k ks) = insert k (set ks)"
proof (induction ks)
  case Nil
  then show ?case by (simp add: insert_at_def)
next
  case (Cons x xs)
  show ?case
  proof (cases "x < k")
    case True
    with Cons show ?thesis by (auto simp: insert_at_def)
  next
    case False
    with Cons.prems have "k < x" by auto
    with Cons.prems show ?thesis by (auto simp: insert_at_def)
  qed
qed

lemma find_key_miss: "key \<notin> set ks \<Longrightarrow> find_key key ks i = None"
  by (induction ks arbitrary: i) (auto simp: bytes_Equal_def)

lemma find_key_hit:
  "sorted_wrt (<) ks \<Longrightarrow> key \<in> set ks \<Longrightarrow> find_key key ks i = Some (i + insert_pos key ks)"
proof (induction ks arbitrary: i)
  case Nil
  then show ?case by simp
next
  case (Cons x xs)
  show ?case
  proof (cases "x = key")
    case True
    then show ?thesis by (simp add: bytes_Equal_def)
  next
    case False
    with Cons.prems have "key \<in> set xs" "x < key" by auto
    with Cons.IH [of "i + 1"] Cons.prems False show ?thesis
      by (simp add: bytes_Equal_def)
  qed
qed

lemma leaf_chain_cong:
  "leaf_chain h x cs \<Longrightarrow>
   \<forall>a\<in>set cs. a < length h' \<and> leafNext (h' ! a) = leafNext (h ! a) \<Longrightarrow>
   leaf_chain h' x cs"
proof (induction cs arbitrary: x)
  case Nil
  then show ?case by (cases x) auto
next
  case (Cons c cs)
  then show ?case by (cases x) auto
qed

lemma leaf_chain_split:
  assumes "leaf_chain h x (xs @ lf # ys)" and "distinct (xs @ lf # ys)"
    and "\<forall>a\<in>set (xs @ ys). a < length h' \<and> leafNext (h' ! a) = leafNext (h ! a)"
    and "lf < length h'" and "leafNext (h' ! lf) = Some nw"
    and "nw < length h'" and "leafNext (h' ! nw) = leafNext (h ! lf)"
  shows "leaf_chain h' x (xs @ lf # nw # ys)"
  using assms(1,2,3)
proof (induction xs arbitrary: x)
  case Nil
  from Nil.prems(1) have x: "x = Some lf" and c: "leaf_chain h (leafNext (h ! lf)) ys"
    by (cases x; simp)+
  from Nil.prems(3) have "\<forall>a\<in>set ys. a < length h' \<and> leafNext (h' ! a) = leafNext (h ! a)"
    by simp
  from leaf_chain_cong [OF c this] have "leaf_chain h' (leafNext (h ! lf)) ys" .
  with x assms(4,5,6,7) show ?case by simp
next
  case (Cons a xs)
  from Cons.prems(1) have x: "x = Some a" and c: "leaf_chain h (leafNext (h ! a)) (xs @ lf # ys)"
    by (cases x; simp)+
  from Cons.prems(2) have d: "distinct (xs @ lf # ys)" by simp
  from Cons.prems(3) have r: "\<forall>a\<in>set (xs @ ys). a < length h' \<and> leafNext (h' ! a) = leafNext (h ! a)"
    and a: "a < length h'" "leafNext (h' ! a) = leafNext (h ! a)"
    by simp_all
  from Cons.IH [OF c d r] have "leaf_chain h' (leafNext (h ! a)) (xs @ lf # nw # ys)" .
  with x a show ?case by simp
qed

lemma sum_list_map_same:
  "\<forall>a\<in>set ch. g a = f a \<Longrightarrow> sum_list (map g ch) = sum_list (map f ch)"
  by (induction ch) auto

lemma sum_list_map_change:
  "distinct ch \<Longrightarrow> lf \<in> set ch \<Longrightarrow> \<forall>a\<in>set ch. a \<noteq> lf \<longrightarrow> g a = f a \<Longrightarrow>
   sum_list (map g ch) + f lf = sum_list (map f ch) + (g lf :: nat)"
proof (induction ch)
  case Nil
  then show ?case by simp
next
  case (Cons c ch)
  show ?case
  proof (cases "c = lf")
    case True
    with Cons.prems have "\<forall>a\<in>set ch. g a = f a" by auto
    from sum_list_map_same [OF this] True show ?thesis by simp
  next
    case False
    with Cons.prems have "lf \<in> set ch" "distinct ch" "\<forall>a\<in>set ch. a \<noteq> lf \<longrightarrow> g a = f a" "g c = f c"
      by auto
    with Cons.IH show ?thesis by simp
  qed
qed

subsection \<open>Replacing a leaf\<close>

lemma node_ok_leaf:
  "node_ok lvl N r L a n \<Longrightarrow> isLeaf n \<Longrightarrow> isLeaf n' \<Longrightarrow> parent n' = parent n \<Longrightarrow>
   length (vals n') = length (keys n') \<Longrightarrow> sorted_wrt (<) (keys n') \<Longrightarrow> [] \<notin> set (keys n') \<Longrightarrow>
   node_ok lvl N r L a n'"
  by (simp add: node_ok_def)

lemma spine_same:
  "spine S t \<Longrightarrow> root t' = root t \<Longrightarrow> length (nodes t) \<le> length (nodes t') \<Longrightarrow>
   (\<And>a. a \<in> S \<Longrightarrow> isLeaf (nodes t' ! a) = isLeaf (nodes t ! a) \<and>
          (\<not> isLeaf (nodes t ! a) \<longrightarrow> children (nodes t' ! a) ! 0 = children (nodes t ! a) ! 0)) \<Longrightarrow>
   spine S t'"
proof -
  assume sp: "spine S t" and r: "root t' = root t" and l: "length (nodes t) \<le> length (nodes t')"
    and e: "\<And>a. a \<in> S \<Longrightarrow> isLeaf (nodes t' ! a) = isLeaf (nodes t ! a) \<and>
          (\<not> isLeaf (nodes t ! a) \<longrightarrow> children (nodes t' ! a) ! 0 = children (nodes t ! a) ! 0)"
  have "\<forall>a\<in>S. a < length (nodes t') \<and> (isLeaf (nodes t' ! a) \<longrightarrow> a = 0) \<and>
              (\<not> isLeaf (nodes t' ! a) \<longrightarrow> children (nodes t' ! a) ! 0 \<in> S)"
  proof
    fix a assume a: "a \<in> S"
    from sp a have 1: "a < length (nodes t)" "isLeaf (nodes t ! a) \<longrightarrow> a = 0"
      "\<not> isLeaf (nodes t ! a) \<longrightarrow> children (nodes t ! a) ! 0 \<in> S"
      by (simp_all add: spine_def)
    from e [OF a] 1 l
    show "a < length (nodes t') \<and> (isLeaf (nodes t' ! a) \<longrightarrow> a = 0) \<and>
              (\<not> isLeaf (nodes t' ! a) \<longrightarrow> children (nodes t' ! a) ! 0 \<in> S)"
      by simp
  qed
  moreover from sp r have "root t' \<in> S" by (simp add: spine_def)
  ultimately show "spine S t'" by (simp add: spine_def)
qed

lemma shape_replace_leaf:
  assumes sh: "shape lvl S L t" and lf: "lf < length (nodes t)" "isLeaf (nodes t ! lf)"
    and n': "isLeaf n'" "parent n' = parent (nodes t ! lf)"
            "length (vals n') = length (keys n')" "sorted_wrt (<) (keys n')"
            "[] \<notin> set (keys n')"
  shows "shape lvl S L (t\<lparr>nodes := (nodes t)[lf := n']\<rparr>)"
proof -
  let ?t' = "t\<lparr>nodes := (nodes t)[lf := n']\<rparr>"
  note d = shapeD [OF sh]
  have ok: "\<And>a. a < length (nodes ?t') \<Longrightarrow>
              node_ok lvl (length (nodes ?t')) (root ?t') L a (nodes ?t' ! a)"
  proof -
    fix a assume "a < length (nodes ?t')"
    then have a: "a < length (nodes t)" by simp
    show "node_ok lvl (length (nodes ?t')) (root ?t') L a (nodes ?t' ! a)"
    proof (cases "a = lf")
      case True
      with node_ok_leaf [OF d(3) [OF lf(1)] lf(2) n'] a show ?thesis by simp
    next
      case False
      with d(3) [OF a] a show ?thesis by simp
    qed
  qed
  have sp: "spine S ?t'"
  proof (rule spine_same [OF d(4)])
    fix a assume "a \<in> S"
    show "isLeaf (nodes ?t' ! a) = isLeaf (nodes t ! a) \<and>
          (\<not> isLeaf (nodes t ! a) \<longrightarrow> children (nodes ?t' ! a) ! 0 = children (nodes t ! a) ! 0)"
      using lf n' by (cases "a = lf") (simp_all add: nth_list_update)
  qed simp_all
  from d(1,2) ok sp show ?thesis by (simp add: shape_def)
qed

lemma chained_replace_leaf:
  assumes "chained t ch" and "lf < length (nodes t)" "isLeaf (nodes t ! lf)"
    and "isLeaf n'" "leafNext n' = leafNext (nodes t ! lf)"
  shows "chained (t\<lparr>nodes := (nodes t)[lf := n']\<rparr>) ch"
proof -
  let ?h = "nodes t" and ?h' = "(nodes t)[lf := n']"
  from assms(1) have c: "leaf_chain ?h (Some 0) ch" and dc: "distinct ch"
    and s: "set ch = {a. a < length ?h \<and> isLeaf (?h ! a)}" by (simp_all add: chained_def)
  have e: "\<And>a. a < length ?h \<Longrightarrow>
             isLeaf (?h' ! a) = isLeaf (?h ! a) \<and> leafNext (?h' ! a) = leafNext (?h ! a)"
  proof -
    fix a assume "a < length ?h"
    then show "isLeaf (?h' ! a) = isLeaf (?h ! a) \<and> leafNext (?h' ! a) = leafNext (?h ! a)"
      using assms(3,4,5) by (cases "a = lf") simp_all
  qed
  have "\<forall>a\<in>set ch. a < length ?h' \<and> leafNext (?h' ! a) = leafNext (?h ! a)"
  proof
    fix a assume "a \<in> set ch"
    with s have "a < length ?h" by simp
    with e [OF this] show "a < length ?h' \<and> leafNext (?h' ! a) = leafNext (?h ! a)" by simp
  qed
  from leaf_chain_cong [OF c this] have lc: "leaf_chain ?h' (Some 0) ch" .
  have "{a. a < length ?h' \<and> isLeaf (?h' ! a)} = {a. a < length ?h \<and> isLeaf (?h ! a)}"
  proof (rule Collect_cong)
    fix a show "(a < length ?h' \<and> isLeaf (?h' ! a)) = (a < length ?h \<and> isLeaf (?h ! a))"
      using e [of a] by (cases "a < length ?h") simp_all
  qed
  with lc dc s show ?thesis by (simp add: chained_def)
qed

lemma totals_replace_leaf:
  assumes "chained t ch" and "lf < length (nodes t)" "isLeaf (nodes t ! lf)"
  shows "tot_count ((nodes t)[lf := n']) ch + length (keys (nodes t ! lf))
           = tot_count (nodes t) ch + length (keys n')"
    and "tot_bytes ((nodes t)[lf := n']) ch + sum_list (map length (vals (nodes t ! lf)))
           = tot_bytes (nodes t) ch + sum_list (map length (vals n'))"
proof -
  from assms have d: "distinct ch" and m: "lf \<in> set ch" by (auto simp: chained_def)
  show "tot_count ((nodes t)[lf := n']) ch + length (keys (nodes t ! lf))
           = tot_count (nodes t) ch + length (keys n')"
    unfolding tot_count_def
    using sum_list_map_change [OF d m, of "\<lambda>a. length (keys ((nodes t)[lf := n'] ! a))"
                                         "\<lambda>a. length (keys (nodes t ! a))"] assms(2)
    by simp
  show "tot_bytes ((nodes t)[lf := n']) ch + sum_list (map length (vals (nodes t ! lf)))
           = tot_bytes (nodes t) ch + sum_list (map length (vals n'))"
    unfolding tot_bytes_def
    using sum_list_map_change [OF d m, of "\<lambda>a. sum_list (map length (vals ((nodes t)[lf := n'] ! a)))"
                                         "\<lambda>a. sum_list (map length (vals (nodes t ! a)))"] assms(2)
    by simp
qed

subsection \<open>Get, Delete and the insertion into a leaf\<close>

lemma findLeaf_ok:
  assumes "shape lvl S L t"
  shows "\<exists>lf. findLeaf t key = Some lf \<and> lf < length (nodes t) \<and> isLeaf (nodes t ! lf)"
  unfolding findLeaf_def
  using findLeaf_shape [OF assms shapeD(2) [OF assms]] .

lemma leafD:
  assumes "shape lvl S L t" and "lf < length (nodes t)" and "isLeaf (nodes t ! lf)"
  shows "length (vals (nodes t ! lf)) = length (keys (nodes t ! lf))"
    "sorted_wrt (<) (keys (nodes t ! lf))" "[] \<notin> set (keys (nodes t ! lf))"
  using shapeD(3) [OF assms(1,2)] assms(3) by (simp_all add: node_ok_def)

lemma Get_char:
  assumes sh: "shape lvl S L t" and k: "key \<noteq> []" and f: "findLeaf t key = Some lf"
    and lf: "lf < length (nodes t)" "isLeaf (nodes t ! lf)"
  shows "Get t key =
           Some (if key \<in> set (keys (nodes t ! lf))
                 then Some (vals (nodes t ! lf) ! insert_pos key (keys (nodes t ! lf)))
                 else None)"
proof (cases "key \<in> set (keys (nodes t ! lf))")
  case True
  note l = leafD [OF sh lf]
  from insert_pos_hit [OF l(2), of key] True l(1)
  have "insert_pos key (keys (nodes t ! lf)) < length (vals (nodes t ! lf))" by simp
  with find_key_hit [OF l(2) True, of 0] k f True show ?thesis
    by (simp add: Get_def)
next
  case False
  with find_key_miss [OF False, of 0] k f show ?thesis
    by (simp add: Get_def)
qed

lemma remove_at_sorted:
  assumes "sorted_wrt (<) (ks :: bytes list)" and "i < length ks"
  shows "sorted_wrt (<) (remove_at i ks)" "set (remove_at i ks) \<subseteq> set ks"
    "length (remove_at i ks) + 1 = length ks"
proof -
  have ks: "ks = take i ks @ ks ! i # drop (Suc i) ks"
    using assms(2) by (rule id_take_nth_drop)
  from assms(1) have "sorted_wrt (<) (take i ks @ ks ! i # drop (Suc i) ks)"
    using ks by simp
  then show "sorted_wrt (<) (remove_at i ks)"
    by (simp add: remove_at_def sorted_wrt_append)
  show "set (remove_at i ks) \<subseteq> set ks"
    unfolding remove_at_def using set_take_subset [of i ks] set_drop_subset [of "i + 1" ks]
    by auto
  show "length (remove_at i ks) + 1 = length ks"
    using assms(2) by (simp add: remove_at_def)
qed

lemma remove_at_sum:
  assumes "i < length (vs :: bytes list)"
  shows "sum_list (map length (remove_at i vs)) + length (vs ! i) = sum_list (map length vs)"
proof -
  have "vs = take i vs @ vs ! i # drop (Suc i) vs"
    using assms by (rule id_take_nth_drop)
  then have "sum_list (map length vs) =
             sum_list (map length (take i vs @ vs ! i # drop (Suc i) vs))" by simp
  then show ?thesis by (simp add: remove_at_def)
qed

lemma update_sum:
  assumes "i < length (vs :: bytes list)"
  shows "sum_list (map length (vs[i := v])) + length (vs ! i) = sum_list (map length vs) + length v"
proof -
  have vs: "vs = take i vs @ vs ! i # drop (Suc i) vs"
    using assms by (rule id_take_nth_drop)
  have "vs[i := v] = take i vs @ v # drop (Suc i) vs"
    using assms by (simp add: upd_conv_take_nth_drop)
  moreover have "sum_list (map length vs) =
             sum_list (map length (take i vs @ vs ! i # drop (Suc i) vs))" using vs by simp
  ultimately show ?thesis by simp
qed

lemma insert_at_sum:
  "sum_list (map length (insert_at i v (vs :: bytes list))) = sum_list (map length vs) + length v"
proof -
  have "sum_list (map length (take i vs)) + sum_list (map length (drop i vs))
          = sum_list (map length (take i vs @ drop i vs))" by (simp only: map_append sum_list_append)
  also have "\<dots> = sum_list (map length vs)" by (simp only: append_take_drop_id)
  finally show ?thesis by (simp add: insert_at_def)
qed

lemma insert_at_length: "length (insert_at i v vs) = Suc (length vs)"
  by (simp add: insert_at_def)

lemma Delete_ok:
  assumes sh: "shape lvl S L t" and ch: "chained t ch" and k: "key \<noteq> []"
    and f: "findLeaf t key = Some lf" and lf: "lf < length (nodes t)" "isLeaf (nodes t ! lf)"
    and m: "key \<in> set (keys (nodes t ! lf))"
  shows "\<exists>t'. Delete t key = Some (None, t') \<and> shape lvl S L t' \<and> chained t' ch \<and>
           tot_count (nodes t') ch + 1 = tot_count (nodes t) ch \<and>
           tot_bytes (nodes t') ch + length (vals (nodes t ! lf) ! insert_pos key (keys (nodes t ! lf)))
             = tot_bytes (nodes t) ch"
proof -
  let ?n = "nodes t ! lf"
  let ?i = "insert_pos key (keys ?n)"
  let ?n' = "?n\<lparr>keys := remove_at ?i (keys ?n), vals := remove_at ?i (vals ?n)\<rparr>"
  let ?t' = "t\<lparr>nodes := (nodes t)[lf := ?n']\<rparr>"
  note l = leafD [OF sh lf]
  from insert_pos_hit [OF l(2), of key] m l(1)
  have i: "?i < length (keys ?n)" "?i < length (vals ?n)" by simp_all
  have d: "Delete t key = Some (None, ?t')"
    using find_key_hit [OF l(2) m, of 0] k f i by (simp add: Delete_def upd_node_def)
  note r = remove_at_sorted [OF l(2) i(1)]
  have ne: "[] \<notin> set (remove_at ?i (keys ?n))" using r(2) l(3) by auto
  have len: "length (vals ?n') = length (keys ?n')"
    using i l(1) by (simp add: remove_at_def)
  have s1: "shape lvl S L ?t'"
    using r(1) ne len by (intro shape_replace_leaf [OF sh lf]) (simp_all add: lf)
  have c1: "chained ?t' ch"
    by (intro chained_replace_leaf [OF ch lf]) (simp_all add: lf)
  from totals_replace_leaf(1) [OF ch lf, of ?n'] r(3)
  have t1: "tot_count (nodes ?t') ch + 1 = tot_count (nodes t) ch" by simp
  from totals_replace_leaf(2) [OF ch lf, of ?n'] remove_at_sum [OF i(2)]
  have t2: "tot_bytes (nodes ?t') ch + length (vals ?n ! ?i) = tot_bytes (nodes t) ch" by simp
  from d s1 c1 t1 t2 show ?thesis by blast
qed

lemma insertIntoLeaf_ok:
  assumes sh: "shape lvl S L t" and ch: "chained t ch" and k: "key \<noteq> []"
    and lf: "lf < length (nodes t)" "isLeaf (nodes t ! lf)"
  shows "\<exists>t1. insertIntoLeaf t lf key val = Some t1 \<and> shape lvl S L t1 \<and> chained t1 ch \<and>
           length (nodes t1) = length (nodes t) \<and> isLeaf (nodes t1 ! lf) \<and> order t1 = order t \<and>
           (if key \<in> set (keys (nodes t ! lf))
            then tot_count (nodes t1) ch = tot_count (nodes t) ch \<and>
                 tot_bytes (nodes t1) ch
                   + length (vals (nodes t ! lf) ! insert_pos key (keys (nodes t ! lf)))
                   = tot_bytes (nodes t) ch + length val
            else tot_count (nodes t1) ch = tot_count (nodes t) ch + 1 \<and>
                 tot_bytes (nodes t1) ch = tot_bytes (nodes t) ch + length val)"
proof (cases "key \<in> set (keys (nodes t ! lf))")
  case True
  let ?n = "nodes t ! lf"
  let ?i = "insert_pos key (keys ?n)"
  let ?n' = "?n\<lparr>vals := (vals ?n)[?i := val]\<rparr>"
  let ?t' = "t\<lparr>nodes := (nodes t)[lf := ?n']\<rparr>"
  note l = leafD [OF sh lf]
  from insert_pos_hit [OF l(2), of key] True l(1)
  have i: "?i < length (keys ?n)" "keys ?n ! ?i = key" "?i < length (vals ?n)" by simp_all
  have e: "insertIntoLeaf t lf key val = Some ?t'"
    using i lf by (simp add: insertIntoLeaf_def node_at_def Let_def bytes_Equal_def upd_node_def)
  have s1: "shape lvl S L ?t'"
    using l by (intro shape_replace_leaf [OF sh lf]) (simp_all add: lf)
  have c1: "chained ?t' ch"
    by (intro chained_replace_leaf [OF ch lf]) (simp_all add: lf)
  from totals_replace_leaf(1) [OF ch lf, of ?n']
  have t1: "tot_count (nodes ?t') ch = tot_count (nodes t) ch" by simp
  from totals_replace_leaf(2) [OF ch lf, of ?n'] update_sum [OF i(3), of val]
  have t2: "tot_bytes (nodes ?t') ch + length (vals ?n ! ?i) = tot_bytes (nodes t) ch + length val"
    by simp
  have "isLeaf (nodes ?t' ! lf)" using lf by simp
  with e s1 c1 t1 t2 True show ?thesis by simp
next
  case False
  let ?n = "nodes t ! lf"
  let ?i = "insert_pos key (keys ?n)"
  let ?n' = "?n\<lparr>keys := insert_at ?i key (keys ?n), vals := insert_at ?i val (vals ?n)\<rparr>"
  let ?t' = "t\<lparr>nodes := (nodes t)[lf := ?n']\<rparr>"
  note l = leafD [OF sh lf]
  from insert_pos_hit [OF l(2), of key] False
  have nh: "\<not> (?i < length (keys ?n) \<and> keys ?n ! ?i = key)" by simp
  have il: "?i \<le> length (vals ?n)" using insert_pos_le [of key "keys ?n"] l(1) by simp
  have e: "insertIntoLeaf t lf key val = Some ?t'"
    using nh il lf l(1)
    by (auto simp: insertIntoLeaf_def node_at_def Let_def bytes_Equal_def upd_node_def)
  note si = sorted_insert_at [OF l(2) False]
  have ne: "[] \<notin> set (insert_at ?i key (keys ?n))" using si l(3) k by auto
  have s1: "shape lvl S L ?t'"
    using si ne l(1) by (intro shape_replace_leaf [OF sh lf]) (simp_all add: lf insert_at_length)
  have c1: "chained ?t' ch"
    by (intro chained_replace_leaf [OF ch lf]) (simp_all add: lf)
  from totals_replace_leaf(1) [OF ch lf, of ?n']
  have t1: "tot_count (nodes ?t') ch = tot_count (nodes t) ch + 1"
    by (simp add: insert_at_length)
  from totals_replace_leaf(2) [OF ch lf, of ?n'] insert_at_sum [of ?i val "vals ?n"]
  have t2: "tot_bytes (nodes ?t') ch = tot_bytes (nodes t) ch + length val"
    by simp
  have "isLeaf (nodes ?t' ! lf)" using lf by simp
  with e s1 c1 t1 t2 False show ?thesis by simp
qed

subsection \<open>What a step of a split keeps\<close>

lemma kept_refl: "kept n n"
  by (simp add: kept_def)

lemma kept_trans: "kept n n' \<Longrightarrow> kept n' n'' \<Longrightarrow> kept n n''"
  by (simp add: kept_def)

lemma frame_refl: "frame t t"
  by (simp add: frame_def kept_refl)

lemma frameD:
  assumes "frame t t'"
  shows "length (nodes t) \<le> length (nodes t')" "order t' = order t"
    "\<And>a. a < length (nodes t) \<Longrightarrow> kept (nodes t ! a) (nodes t' ! a)"
    "\<And>a. a < length (nodes t') \<Longrightarrow> length (nodes t) \<le> a \<Longrightarrow> \<not> isLeaf (nodes t' ! a)"
  using assms by (simp_all add: frame_def)

lemma frame_trans:
  assumes 1: "frame t t'" and 2: "frame t' t''"
  shows "frame t t''"
proof -
  note a = frameD [OF 1] and b = frameD [OF 2]
  have k: "\<forall>a<length (nodes t). kept (nodes t ! a) (nodes t'' ! a)"
  proof (intro allI impI)
    fix x assume x: "x < length (nodes t)"
    with a(1) have "x < length (nodes t')" by simp
    from kept_trans [OF a(3) [OF x] b(3) [OF this]] show "kept (nodes t ! x) (nodes t'' ! x)" .
  qed
  have n: "\<forall>a<length (nodes t''). length (nodes t) \<le> a \<longrightarrow> \<not> isLeaf (nodes t'' ! a)"
  proof (intro allI impI)
    fix x assume x: "x < length (nodes t'')" "length (nodes t) \<le> x"
    show "\<not> isLeaf (nodes t'' ! x)"
    proof (cases "x < length (nodes t')")
      case True
      from a(4) [OF True x(2)] b(3) [OF True] show ?thesis by (simp add: kept_def)
    next
      case False
      with b(4) [OF x(1)] show ?thesis by simp
    qed
  qed
  from a(1,2) b(1,2) k n show ?thesis by (simp add: frame_def)
qed

lemma frame_upd:
  assumes "a < length (nodes t)" and "kept (nodes t ! a) n'"
  shows "frame t (t\<lparr>nodes := (nodes t)[a := n']\<rparr>)"
proof -
  have "\<forall>x<length (nodes t). kept (nodes t ! x) ((nodes t)[a := n'] ! x)"
  proof (intro allI impI)
    fix x assume "x < length (nodes t)"
    then show "kept (nodes t ! x) ((nodes t)[a := n'] ! x)"
      using assms by (cases "x = a") (simp_all add: kept_refl)
  qed
  then show ?thesis by (simp add: frame_def)
qed

lemma frame_alloc:
  assumes "\<not> isLeaf n"
  shows "frame t (t\<lparr>nodes := nodes t @ [n]\<rparr>)"
proof -
  have "\<forall>x<length (nodes t). kept (nodes t ! x) ((nodes t @ [n]) ! x)"
    by (simp add: nth_append kept_refl)
  moreover have "\<forall>x<length (nodes t @ [n]). length (nodes t) \<le> x \<longrightarrow> \<not> isLeaf ((nodes t @ [n]) ! x)"
  proof (intro allI impI)
    fix x assume "x < length (nodes t @ [n])" "length (nodes t) \<le> x"
    then have "x = length (nodes t)" by simp
    with assms show "\<not> isLeaf ((nodes t @ [n]) ! x)" by simp
  qed
  ultimately show ?thesis by (simp add: frame_def)
qed

lemma chained_frame:
  assumes c: "chained t ch" and f: "frame t t'"
  shows "chained t' ch" "tot_count (nodes t') ch = tot_count (nodes t) ch"
    "tot_bytes (nodes t') ch = tot_bytes (nodes t) ch"
proof -
  let ?h = "nodes t" and ?h' = "nodes t'"
  note fd = frameD [OF f]
  from c have lc: "leaf_chain ?h (Some 0) ch" and dc: "distinct ch"
    and s: "set ch = {a. a < length ?h \<and> isLeaf (?h ! a)}" by (simp_all add: chained_def)
  have e: "\<And>a. a \<in> set ch \<Longrightarrow> a < length ?h' \<and> leafNext (?h' ! a) = leafNext (?h ! a) \<and>
              keys (?h' ! a) = keys (?h ! a) \<and> vals (?h' ! a) = vals (?h ! a)"
  proof -
    fix a assume "a \<in> set ch"
    with s have a: "a < length ?h" "isLeaf (?h ! a)" by simp_all
    from fd(3) [OF a(1)] a(2) fd(1) a(1)
    show "a < length ?h' \<and> leafNext (?h' ! a) = leafNext (?h ! a) \<and>
              keys (?h' ! a) = keys (?h ! a) \<and> vals (?h' ! a) = vals (?h ! a)"
      by (simp add: kept_def)
  qed
  have "\<forall>a\<in>set ch. a < length ?h' \<and> leafNext (?h' ! a) = leafNext (?h ! a)"
    using e by simp
  from leaf_chain_cong [OF lc this] have lc': "leaf_chain ?h' (Some 0) ch" .
  have "{a. a < length ?h' \<and> isLeaf (?h' ! a)} = {a. a < length ?h \<and> isLeaf (?h ! a)}"
  proof (rule Collect_cong)
    fix a show "(a < length ?h' \<and> isLeaf (?h' ! a)) = (a < length ?h \<and> isLeaf (?h ! a))"
    proof (cases "a < length ?h")
      case True
      with fd(3) [OF True] fd(1) show ?thesis by (simp add: kept_def)
    next
      case False
      then have "length ?h \<le> a" by simp
      with fd(4) [of a] False show ?thesis by (cases "a < length ?h'") simp_all
    qed
  qed
  with lc' dc s show "chained t' ch" by (simp add: chained_def)
  show "tot_count (nodes t') ch = tot_count (nodes t) ch"
    unfolding tot_count_def by (rule sum_list_map_same) (simp add: e)
  show "tot_bytes (nodes t') ch = tot_bytes (nodes t) ch"
    unfolding tot_bytes_def by (rule sum_list_map_same) (simp add: e)
qed

lemma node_ok_mono:
  assumes ok: "node_ok lvl N r X a n" and a: "a < N" and l: "\<forall>b<N. lvl' b = lvl b"
    and N: "N \<le> N'" and r: "lvl a \<le> lvl' r'" and p: "parent n = None \<Longrightarrow> a = r' \<or> a \<in> X'"
  shows "node_ok lvl' N' r' X' a n"
proof -
  from l a have la: "lvl' a = lvl a" by simp
  have c: "\<not> isLeaf n \<Longrightarrow> \<forall>c\<in>set (children n). c < N' \<and> Suc (lvl' c) = lvl' a"
  proof
    fix c assume "\<not> isLeaf n" "c \<in> set (children n)"
    with ok have "c < N \<and> Suc (lvl c) = lvl a" by (simp add: node_ok_def)
    with l N la show "c < N' \<and> Suc (lvl' c) = lvl' a" by simp
  qed
  have q: "\<forall>p. parent n = Some p \<longrightarrow> p < N' \<and> lvl' p = Suc (lvl' a)"
  proof (intro allI impI)
    fix p assume "parent n = Some p"
    with ok have "p < N \<and> lvl p = Suc (lvl a)" by (simp add: node_ok_def)
    with l N la show "p < N' \<and> lvl' p = Suc (lvl' a)" by simp
  qed
  from ok la r c q p show ?thesis by (simp add: node_ok_def)
qed

lemma node_ok_parent:
  "node_ok lvl N r X a n \<Longrightarrow> q < N \<Longrightarrow> lvl q = Suc (lvl a) \<Longrightarrow>
   node_ok lvl N r X' a (n\<lparr>parent := Some q\<rparr>)"
  by (simp add: node_ok_def)

lemma node_ok_inner_upd:
  "node_ok lvl N r X a n \<Longrightarrow> \<not> isLeaf n \<Longrightarrow> length cs = length ks + 1 \<Longrightarrow>
   \<forall>c\<in>set cs. c < N \<and> Suc (lvl c) = lvl a \<Longrightarrow> \<forall>s\<in>set ks. [0] < s \<Longrightarrow>
   node_ok lvl N r X a (n\<lparr>keys := ks, children := cs\<rparr>)"
  by (simp add: node_ok_def)

lemma shape_upd:
  assumes sh: "shape lvl S X t" and a: "a < length (nodes t)"
    and ok: "node_ok lvl (length (nodes t)) (root t) X' a n'"
    and X: "X - {a} \<subseteq> X'"
    and sp: "isLeaf n' = isLeaf (nodes t ! a)"
            "\<not> isLeaf n' \<Longrightarrow> children n' ! 0 = children (nodes t ! a) ! 0"
  shows "shape lvl S X' (t\<lparr>nodes := (nodes t)[a := n']\<rparr>)"
proof -
  let ?t' = "t\<lparr>nodes := (nodes t)[a := n']\<rparr>"
  note d = shapeD [OF sh]
  have oks: "\<forall>b<length (nodes ?t'). node_ok lvl (length (nodes ?t')) (root ?t') X' b (nodes ?t' ! b)"
  proof (intro allI impI)
    fix b assume "b < length (nodes ?t')"
    then have b: "b < length (nodes t)" by simp
    show "node_ok lvl (length (nodes ?t')) (root ?t') X' b (nodes ?t' ! b)"
    proof (cases "b = a")
      case True
      with ok a show ?thesis by simp
    next
      case False
      note o = d(3) [OF b]
      have "node_ok lvl (length (nodes t)) (root t) X' b (nodes t ! b)"
      proof (rule node_ok_mono [OF o b])
        show "lvl b \<le> lvl (root t)" using o by (simp add: node_ok_def)
        assume "parent (nodes t ! b) = None"
        with o have "b = root t \<or> b \<in> X" by (simp add: node_ok_def)
        with False X show "b = root t \<or> b \<in> X'" by auto
      qed simp_all
      with False b show ?thesis by simp
    qed
  qed
  have s: "spine S ?t'"
  proof (rule spine_same [OF d(4)])
    fix b assume "b \<in> S"
    show "isLeaf (nodes ?t' ! b) = isLeaf (nodes t ! b) \<and>
          (\<not> isLeaf (nodes t ! b) \<longrightarrow> children (nodes ?t' ! b) ! 0 = children (nodes t ! b) ! 0)"
      using a sp by (cases "b = a") simp_all
  qed simp_all
  from d(1,2) oks s show ?thesis by (simp add: shape_def)
qed

lemma shape_mono:
  assumes sh: "shape lvl S X t" and X: "X \<subseteq> X'"
  shows "shape lvl S X' t"
proof -
  note d = shapeD [OF sh]
  have "\<forall>b<length (nodes t). node_ok lvl (length (nodes t)) (root t) X' b (nodes t ! b)"
  proof (intro allI impI)
    fix b assume b: "b < length (nodes t)"
    note o = d(3) [OF b]
    show "node_ok lvl (length (nodes t)) (root t) X' b (nodes t ! b)"
    proof (rule node_ok_mono [OF o b])
      show "lvl b \<le> lvl (root t)" using o by (simp add: node_ok_def)
      assume "parent (nodes t ! b) = None"
      with o have "b = root t \<or> b \<in> X" by (simp add: node_ok_def)
      with X show "b = root t \<or> b \<in> X'" by auto
    qed simp_all
  qed
  with d(1,2,4) show ?thesis by (simp add: shape_def)
qed

lemma shape_alloc:
  assumes sh: "shape lvl S X t"
    and ok: "node_ok (lvl(length (nodes t) := v)) (Suc (length (nodes t))) (root t) X'
               (length (nodes t)) n"
    and X: "X \<subseteq> X'"
  shows "shape (lvl(length (nodes t) := v)) S X' (t\<lparr>nodes := nodes t @ [n]\<rparr>)"
proof -
  let ?N = "length (nodes t)"
  let ?t' = "t\<lparr>nodes := nodes t @ [n]\<rparr>" and ?lvl = "lvl(?N := v)"
  note d = shapeD [OF sh]
  have oks: "\<forall>b<length (nodes ?t'). node_ok ?lvl (length (nodes ?t')) (root ?t') X' b (nodes ?t' ! b)"
  proof (intro allI impI)
    fix b assume b': "b < length (nodes ?t')"
    show "node_ok ?lvl (length (nodes ?t')) (root ?t') X' b (nodes ?t' ! b)"
    proof (cases "b = ?N")
      case True
      with ok show ?thesis by simp
    next
      case False
      with b' have b: "b < ?N" by simp
      note o = d(3) [OF b]
      have "node_ok ?lvl (Suc ?N) (root t) X' b (nodes t ! b)"
      proof (rule node_ok_mono [OF o b])
        show "lvl b \<le> ?lvl (root t)" using o d(2) by (simp add: node_ok_def)
        assume "parent (nodes t ! b) = None"
        with o have "b = root t \<or> b \<in> X" by (simp add: node_ok_def)
        with X show "b = root t \<or> b \<in> X'" by auto
      qed simp_all
      with b show ?thesis by (simp add: nth_append)
    qed
  qed
  have s: "spine S ?t'"
  proof (rule spine_same [OF d(4)])
    fix b assume "b \<in> S"
    with spineD(1) [OF d(4)] have "b < ?N" by simp
    then show "isLeaf (nodes ?t' ! b) = isLeaf (nodes t ! b) \<and>
          (\<not> isLeaf (nodes t ! b) \<longrightarrow> children (nodes ?t' ! b) ! 0 = children (nodes t ! b) ! 0)"
      by (simp add: nth_append)
  qed simp_all
  from d(1,2) oks s show ?thesis by (simp add: shape_def)
qed

lemma set_parents_Nil: "set_parents [] p t = Some t"
  by (simp add: set_parents_def)

lemma set_parents_Cons:
  "c < length (nodes t) \<Longrightarrow>
   set_parents (c # cs) p t = set_parents cs p (upd_node c (\<lambda>x. x\<lparr>parent := Some p\<rparr>) t)"
  by (simp add: set_parents_def)

lemma set_parents_ok:
  "shape lvl S X t \<Longrightarrow> p < length (nodes t) \<Longrightarrow>
   \<forall>c\<in>set cs. c < length (nodes t) \<and> lvl p = Suc (lvl c) \<Longrightarrow>
   \<exists>t'. set_parents cs p t = Some t' \<and> shape lvl S X t' \<and> frame t t' \<and>
        length (nodes t') = length (nodes t) \<and> root t' = root t \<and>
        (\<forall>a. isLeaf (nodes t' ! a) = isLeaf (nodes t ! a) \<and> keys (nodes t' ! a) = keys (nodes t ! a) \<and>
             children (nodes t' ! a) = children (nodes t ! a))"
proof (induction cs arbitrary: t)
  case Nil
  then show ?case by (simp add: set_parents_Nil frame_refl)
next
  case (Cons c cs)
  let ?n' = "(nodes t ! c)\<lparr>parent := Some p\<rparr>"
  let ?u = "t\<lparr>nodes := (nodes t)[c := ?n']\<rparr>"
  from Cons.prems have c: "c < length (nodes t)" "lvl p = Suc (lvl c)" by simp_all
  have u: "upd_node c (\<lambda>x. x\<lparr>parent := Some p\<rparr>) t = ?u" by (simp add: upd_node_def)
  note o = shapeD(3) [OF Cons.prems(1) c(1)]
  have shu: "shape lvl S X ?u"
  proof (rule shape_upd [OF Cons.prems(1) c(1)])
    show "node_ok lvl (length (nodes t)) (root t) X c ?n'"
      using node_ok_parent [OF o Cons.prems(2) c(2)] .
  qed auto
  have fru: "frame t ?u"
    by (rule frame_upd [OF c(1)]) (simp add: kept_def)
  have "\<forall>c\<in>set cs. c < length (nodes ?u) \<and> lvl p = Suc (lvl c)" using Cons.prems(3) by auto
  moreover have "p < length (nodes ?u)" using Cons.prems(2) by simp
  ultimately obtain t' where t': "set_parents cs p ?u = Some t'" "shape lvl S X t'" "frame ?u t'"
    "length (nodes t') = length (nodes ?u)" "root t' = root ?u"
    "\<forall>a. isLeaf (nodes t' ! a) = isLeaf (nodes ?u ! a) \<and> keys (nodes t' ! a) = keys (nodes ?u ! a) \<and>
             children (nodes t' ! a) = children (nodes ?u ! a)"
    using Cons.IH [OF shu] by blast
  have same: "\<forall>a. isLeaf (nodes ?u ! a) = isLeaf (nodes t ! a) \<and> keys (nodes ?u ! a) = keys (nodes t ! a) \<and>
             children (nodes ?u ! a) = children (nodes t ! a)"
  proof
    fix a show "isLeaf (nodes ?u ! a) = isLeaf (nodes t ! a) \<and> keys (nodes ?u ! a) = keys (nodes t ! a) \<and>
             children (nodes ?u ! a) = children (nodes t ! a)"
      using c(1) by (cases "a = c") simp_all
  qed
  have "set_parents (c # cs) p t = Some t'"
    using set_parents_Cons [OF c(1), of cs p] u t'(1) by simp
  moreover note t'(2) frame_trans [OF fru t'(3)]
  moreover have "length (nodes t') = length (nodes t)" using t'(4) by simp
  moreover have "root t' = root t" using t'(5) by simp
  moreover have "\<forall>a. isLeaf (nodes t' ! a) = isLeaf (nodes t ! a) \<and> keys (nodes t' ! a) = keys (nodes t ! a) \<and>
             children (nodes t' ! a) = children (nodes t ! a)"
    using t'(6) same by simp
  ultimately show ?case by blast
qed

subsection \<open>Halving an internal node and making a new root\<close>

lemma halve_ok:
  assumes sh: "shape lvl S X t" and par: "par < length (nodes t)" "\<not> isLeaf (nodes t ! par)"
    and k1: "1 \<le> length (keys (nodes t ! par))"
  shows "\<exists>t2 pk. splitInternal_halve t par = Some (t2, pk, length (nodes t)) \<and>
           shape (lvl(length (nodes t) := lvl par)) S (insert (length (nodes t)) X) t2 \<and>
           frame t t2 \<and> length (nodes t2) = Suc (length (nodes t)) \<and> root t2 = root t \<and>
           [0] < pk"
proof -
  let ?N = "length (nodes t)" and ?n = "nodes t ! par"
  let ?mid = "length (keys ?n) div 2"
  let ?lvl2 = "lvl(?N := lvl par)"
  let ?X2 = "insert ?N X"
  let ?cs = "drop (?mid + 1) (children ?n)"
  let ?nn = "newInternalNode\<lparr>keys := drop (?mid + 1) (keys ?n), children := ?cs\<rparr>"
  let ?t1 = "t\<lparr>nodes := nodes t @ [?nn]\<rparr>"
  note d = shapeD [OF sh]
  note ok = d(3) [OF par(1)]
  note inn = node_ok_inner [OF ok par(2)]
  have mid: "?mid < length (keys ?n)" using k1 by simp
  have lp: "lvl par \<noteq> 0" "lvl par \<le> lvl (root t)" using ok par(2) by (simp_all add: node_ok_def)
  have csN: "\<forall>c\<in>set ?cs. c < ?N \<and> Suc (lvl c) = lvl par"
  proof
    fix c assume "c \<in> set ?cs"
    then have "c \<in> set (children ?n)" by (rule in_set_dropD)
    with inn(2) show "c < ?N \<and> Suc (lvl c) = lvl par" by simp
  qed
  have ksN: "\<forall>s\<in>set (drop (?mid + 1) (keys ?n)). [0] < s"
  proof
    fix s assume "s \<in> set (drop (?mid + 1) (keys ?n))"
    then have "s \<in> set (keys ?n)" by (rule in_set_dropD)
    with inn(3) show "[0] < s" by simp
  qed
  have cs2: "\<forall>c\<in>set ?cs. c < Suc ?N \<and> Suc (?lvl2 c) = ?lvl2 ?N"
  proof
    fix c assume "c \<in> set ?cs"
    with csN have "c < ?N \<and> Suc (lvl c) = lvl par" by simp
    then show "c < Suc ?N \<and> Suc (?lvl2 c) = ?lvl2 ?N" by simp
  qed
  have okn: "node_ok ?lvl2 (Suc ?N) (root t) ?X2 ?N ?nn"
    using lp d(2) cs2 ksN inn(1) mid by (simp add: node_ok_def newInternalNode_def)
  have sh1: "shape ?lvl2 S ?X2 ?t1"
    by (rule shape_alloc [OF sh okn]) auto
  have fr1: "frame t ?t1" by (rule frame_alloc) (simp add: newInternalNode_def)
  have pre: "\<forall>c\<in>set ?cs. c < length (nodes ?t1) \<and> ?lvl2 ?N = Suc (?lvl2 c)"
  proof
    fix c assume "c \<in> set ?cs"
    with cs2 have "c < Suc ?N \<and> Suc (?lvl2 c) = ?lvl2 ?N" by simp
    then show "c < length (nodes ?t1) \<and> ?lvl2 ?N = Suc (?lvl2 c)" by simp
  qed
  have "?N < length (nodes ?t1)" by simp
  from set_parents_ok [OF sh1 this pre] obtain t2' where
    t2': "set_parents ?cs ?N ?t1 = Some t2'" "shape ?lvl2 S ?X2 t2'" "frame ?t1 t2'"
      "length (nodes t2') = length (nodes ?t1)" "root t2' = root ?t1"
      "\<forall>a. isLeaf (nodes t2' ! a) = isLeaf (nodes ?t1 ! a) \<and>
           keys (nodes t2' ! a) = keys (nodes ?t1 ! a) \<and>
           children (nodes t2' ! a) = children (nodes ?t1 ! a)"
    by blast
  let ?m = "nodes t2' ! par"
  have same: "isLeaf ?m = isLeaf ?n" "keys ?m = keys ?n" "children ?m = children ?n"
    using t2'(6) par(1) by (simp_all add: nth_append)
  let ?n2 = "?m\<lparr>keys := take ?mid (keys ?n), children := take (?mid + 1) (children ?n)\<rparr>"
  let ?t2 = "t2'\<lparr>nodes := (nodes t2')[par := ?n2]\<rparr>"
  have par2: "par < length (nodes t2')" using t2'(4) par(1) by simp
  note d2 = shapeD [OF t2'(2)]
  note ok2 = d2(3) [OF par2]
  have l2: "length (nodes t2') = Suc ?N" "root t2' = root t" using t2'(4,5) by simp_all
  have cs3: "\<forall>c\<in>set (take (?mid + 1) (children ?n)). c < Suc ?N \<and> Suc (?lvl2 c) = ?lvl2 par"
  proof
    fix c assume "c \<in> set (take (?mid + 1) (children ?n))"
    then have "c \<in> set (children ?n)" by (rule in_set_takeD)
    with inn(2) have "c < ?N \<and> Suc (lvl c) = lvl par" by simp
    with par(1) show "c < Suc ?N \<and> Suc (?lvl2 c) = ?lvl2 par" by simp
  qed
  have ks3: "\<forall>s\<in>set (take ?mid (keys ?n)). [0] < s"
  proof
    fix s assume "s \<in> set (take ?mid (keys ?n))"
    then have "s \<in> set (keys ?n)" by (rule in_set_takeD)
    with inn(3) show "[0] < s" by simp
  qed
  have len3: "length (take (?mid + 1) (children ?n)) = length (take ?mid (keys ?n)) + 1"
    using inn(1) mid by simp
  have okp: "node_ok ?lvl2 (length (nodes t2')) (root t2') ?X2 par ?n2"
    using node_ok_inner_upd [OF ok2 _ len3] same(1) par(2) cs3 ks3 l2
    by simp
  have sh2: "shape ?lvl2 S ?X2 ?t2"
  proof (rule shape_upd [OF t2'(2) par2 okp])
    show "children ?n2 ! 0 = children ?m ! 0" using same(3) by simp
  qed simp_all
  have fr2: "frame t2' ?t2"
    by (rule frame_upd [OF par2]) (simp add: kept_def same par(2))
  have hv: "splitInternal_halve t par = Some (?t2, keys ?n ! ?mid, ?N)"
    using par(1) mid inn(1) t2'(1) same
    by (simp add: splitInternal_halve_def node_at_def alloc_node_def Let_def upd_node_def)
  have pk: "[0] < keys ?n ! ?mid" using inn(3) [of "keys ?n ! ?mid"] mid by simp
  have fr: "frame t ?t2" by (rule frame_trans [OF frame_trans [OF fr1 t2'(3)] fr2])
  have "length (nodes ?t2) = Suc ?N" "root ?t2 = root t" using l2 by simp_all
  with hv sh2 fr pk show ?thesis by blast
qed

lemma make_new_root_ok:
  assumes sh: "shape lvl S X t" and l: "left = root t" and r: "right < length (nodes t)"
    and lr: "lvl right = lvl left" and pk: "[0] < pk"
  shows "shape (lvl(length (nodes t) := Suc (lvl left))) (insert (length (nodes t)) S) (X - {right})
           (make_new_root t left pk right) \<and>
         frame t (make_new_root t left pk right)"
proof -
  let ?N = "length (nodes t)"
  let ?lvl' = "lvl(?N := Suc (lvl left))"
  let ?nr = "newInternalNode\<lparr>keys := [pk], children := [left, right]\<rparr>"
  let ?h1 = "nodes t @ [?nr]"
  let ?h2 = "?h1[left := (?h1 ! left)\<lparr>parent := Some ?N\<rparr>]"
  let ?h3 = "?h2[right := (?h2 ! right)\<lparr>parent := Some ?N\<rparr>]"
  let ?t' = "t\<lparr>nodes := ?h3, root := ?N\<rparr>"
  note d = shapeD [OF sh]
  have lN: "left < ?N" using l d(2) by simp
  have e: "make_new_root t left pk right = ?t'"
    by (simp add: make_new_root_def alloc_node_def upd_node_def Let_def)
  have len: "length ?h3 = Suc ?N" by simp
  have hN: "?h3 ! ?N = ?nr" using lN r by simp
  have hold: "\<And>b. b < ?N \<Longrightarrow> b \<noteq> left \<Longrightarrow> b \<noteq> right \<Longrightarrow> ?h3 ! b = nodes t ! b"
    by (simp add: nth_append)
  have hlr: "\<And>b. b < ?N \<Longrightarrow> b = left \<or> b = right \<Longrightarrow>
               ?h3 ! b = (nodes t ! b)\<lparr>parent := Some ?N\<rparr>"
  proof -
    fix b assume b: "b < ?N" "b = left \<or> b = right"
    show "?h3 ! b = (nodes t ! b)\<lparr>parent := Some ?N\<rparr>"
    proof (cases "b = right")
      case True
      then show ?thesis using r lN by (cases "right = left") (simp_all add: nth_append)
    next
      case False
      with b have "b = left" by simp
      with False lN show ?thesis by (simp add: nth_append)
    qed
  qed
  have oks: "\<forall>b<length (nodes ?t'). node_ok ?lvl' (length (nodes ?t')) (root ?t') (X - {right}) b (nodes ?t' ! b)"
  proof (intro allI impI)
    fix b assume "b < length (nodes ?t')"
    then have b': "b < Suc ?N" by simp
    show "node_ok ?lvl' (length (nodes ?t')) (root ?t') (X - {right}) b (nodes ?t' ! b)"
    proof (cases "b = ?N")
      case True
      have "node_ok ?lvl' (Suc ?N) ?N (X - {right}) ?N ?nr"
        using lN r lr pk by (simp add: node_ok_def newInternalNode_def)
      with True hN show ?thesis by simp
    next
      case False
      with b' have b: "b < ?N" by simp
      note o = d(3) [OF b]
      have lb: "lvl b \<le> lvl (root t)" using o by (simp add: node_ok_def)
      show ?thesis
      proof (cases "b = left \<or> b = right")
        case True
        have o': "node_ok ?lvl' (Suc ?N) ?N UNIV b (nodes t ! b)"
        proof (rule node_ok_mono [OF o b])
          show "lvl b \<le> ?lvl' ?N" using lb l by simp
        qed simp_all
        have lq: "?lvl' ?N = Suc (?lvl' b)" using True lr b by auto
        have qN: "?N < Suc ?N" by simp
        from node_ok_parent [OF o' qN lq]
        have "node_ok ?lvl' (Suc ?N) ?N (X - {right}) b ((nodes t ! b)\<lparr>parent := Some ?N\<rparr>)" .
        with hlr [OF b True] show ?thesis by simp
      next
        case False
        have "node_ok ?lvl' (Suc ?N) ?N (X - {right}) b (nodes t ! b)"
        proof (rule node_ok_mono [OF o b])
          show "lvl b \<le> ?lvl' ?N" using lb l by simp
          assume "parent (nodes t ! b) = None"
          with o have "b = root t \<or> b \<in> X" by (simp add: node_ok_def)
          with False l show "b = ?N \<or> b \<in> X - {right}" by simp
        qed simp_all
        with hold [OF b] False show ?thesis by simp
      qed
    qed
  qed
  have fields: "\<And>b. b < ?N \<Longrightarrow> isLeaf (?h3 ! b) = isLeaf (nodes t ! b) \<and>
                  keys (?h3 ! b) = keys (nodes t ! b) \<and> vals (?h3 ! b) = vals (nodes t ! b) \<and>
                  children (?h3 ! b) = children (nodes t ! b) \<and>
                  leafNext (?h3 ! b) = leafNext (nodes t ! b) \<and>
                  (parent (nodes t ! b) \<noteq> None \<longrightarrow> parent (?h3 ! b) \<noteq> None)"
  proof -
    fix b assume b: "b < ?N"
    show "isLeaf (?h3 ! b) = isLeaf (nodes t ! b) \<and>
                  keys (?h3 ! b) = keys (nodes t ! b) \<and> vals (?h3 ! b) = vals (nodes t ! b) \<and>
                  children (?h3 ! b) = children (nodes t ! b) \<and>
                  leafNext (?h3 ! b) = leafNext (nodes t ! b) \<and>
                  (parent (nodes t ! b) \<noteq> None \<longrightarrow> parent (?h3 ! b) \<noteq> None)"
    proof (cases "b = left \<or> b = right")
      case True
      from hlr [OF b True] show ?thesis by simp
    next
      case False
      with hold [OF b] show ?thesis by simp
    qed
  qed
  note sp = d(4)
  have sp': "spine (insert ?N S) ?t'"
  proof -
    have "\<forall>a\<in>insert ?N S. a < length (nodes ?t') \<and> (isLeaf (nodes ?t' ! a) \<longrightarrow> a = 0) \<and>
              (\<not> isLeaf (nodes ?t' ! a) \<longrightarrow> children (nodes ?t' ! a) ! 0 \<in> insert ?N S)"
    proof
      fix a assume a: "a \<in> insert ?N S"
      show "a < length (nodes ?t') \<and> (isLeaf (nodes ?t' ! a) \<longrightarrow> a = 0) \<and>
              (\<not> isLeaf (nodes ?t' ! a) \<longrightarrow> children (nodes ?t' ! a) ! 0 \<in> insert ?N S)"
      proof (cases "a = ?N")
        case True
        have "root t \<in> S" using sp by (simp add: spine_def)
        with True hN l show ?thesis by (simp add: newInternalNode_def)
      next
        case False
        with a have aS: "a \<in> S" by simp
        note s = spineD [OF sp aS]
        from fields [OF s(1)] s show ?thesis by auto
      qed
    qed
    then show ?thesis by (simp add: spine_def)
  qed
  have sh': "shape ?lvl' (insert ?N S) (X - {right}) ?t'"
    using d(1) oks sp' by (simp add: shape_def)
  have fr: "frame t ?t'"
  proof -
    have "\<forall>a<?N. kept (nodes t ! a) (?h3 ! a)"
    proof (intro allI impI)
      fix a assume "a < ?N"
      from fields [OF this] show "kept (nodes t ! a) (?h3 ! a)" by (simp add: kept_def)
    qed
    moreover have "\<forall>a<length ?h3. ?N \<le> a \<longrightarrow> \<not> isLeaf (?h3 ! a)"
    proof (intro allI impI)
      fix a assume "a < length ?h3" "?N \<le> a"
      then have "a = ?N" by simp
      with hN show "\<not> isLeaf (?h3 ! a)" by (simp add: newInternalNode_def)
    qed
    ultimately show ?thesis by (simp add: frame_def)
  qed
  from sh' fr e show ?thesis by simp
qed

subsection \<open>insertIntoParent returns and keeps the shape\<close>

lemma set_insert_at: "set (insert_at i x xs) = insert x (set xs)"
proof -
  have "set (take i xs) \<union> set (drop i xs) = set xs"
    by (simp only: set_append [symmetric] append_take_drop_id)
  then show ?thesis by (auto simp: insert_at_def)
qed

lemma insert_child_ok:
  assumes sh: "shape lvl S X t" and par: "par < length (nodes t)" "\<not> isLeaf (nodes t ! par)"
    and rt: "right < length (nodes t)" "Suc (lvl right) = lvl par" and key: "[0] < key"
  shows "shape lvl S X
           (t\<lparr>nodes := (nodes t)[par := (nodes t ! par)
                  \<lparr>keys := insert_at i key (keys (nodes t ! par)),
                   children := insert_at (i + 1) right (children (nodes t ! par))\<rparr>]\<rparr>)"
    and "frame t
           (t\<lparr>nodes := (nodes t)[par := (nodes t ! par)
                  \<lparr>keys := insert_at i key (keys (nodes t ! par)),
                   children := insert_at (i + 1) right (children (nodes t ! par))\<rparr>]\<rparr>)"
proof -
  let ?p = "nodes t ! par"
  let ?ks = "insert_at i key (keys ?p)" and ?cs = "insert_at (i + 1) right (children ?p)"
  let ?n1 = "?p\<lparr>keys := ?ks, children := ?cs\<rparr>"
  note d = shapeD [OF sh]
  note ok = d(3) [OF par(1)]
  note inn = node_ok_inner [OF ok par(2)]
  have len: "length ?cs = length ?ks + 1" using inn(1) by (simp add: insert_at_length)
  have cs: "\<forall>c\<in>set ?cs. c < length (nodes t) \<and> Suc (lvl c) = lvl par"
    using inn(2) rt by (simp add: set_insert_at)
  have ks: "\<forall>s\<in>set ?ks. [0] < s"
    using inn(3) key by (simp add: set_insert_at)
  note ok1 = node_ok_inner_upd [OF ok par(2) len cs ks]
  have c0: "children ?n1 ! 0 = children ?p ! 0"
    using inn(1) by (simp add: insert_at_def nth_append)
  show "shape lvl S X (t\<lparr>nodes := (nodes t)[par := ?n1]\<rparr>)"
  proof (rule shape_upd [OF sh par(1) ok1])
    show "children ?n1 ! 0 = children ?p ! 0" by (rule c0)
  qed auto
  show "frame t (t\<lparr>nodes := (nodes t)[par := ?n1]\<rparr>)"
    by (rule frame_upd [OF par(1)]) (simp add: kept_def par(2))
qed

lemma insertIntoParent_ok:
  "shape lvl S X t \<Longrightarrow> par < length (nodes t) \<Longrightarrow> \<not> isLeaf (nodes t ! par) \<Longrightarrow>
   right < length (nodes t) \<Longrightarrow> Suc (lvl right) = lvl par \<Longrightarrow> [0] < key \<Longrightarrow>
   \<forall>x\<in>X. x < length (nodes t) \<and> lvl x < lvl par \<Longrightarrow>
   \<exists>t' lvl' S'. insertIntoParent t par key right = Some t' \<and> shape lvl' S' X t' \<and> frame t t' \<and>
      (\<forall>a<length (nodes t). lvl' a = lvl a)"
proof (induction "lvl (root t) - lvl par" arbitrary: t par key right lvl S X rule: less_induct)
  case less
  note sh = less.prems(1) and par = less.prems(2,3) and rt = less.prems(4,5)
    and key = less.prems(6) and X = less.prems(7)
  let ?N = "length (nodes t)" and ?p = "nodes t ! par"
  let ?i = "insert_pos key (keys ?p)"
  let ?n1 = "?p\<lparr>keys := insert_at ?i key (keys ?p),
                  children := insert_at (?i + 1) right (children ?p)\<rparr>"
  let ?t1 = "t\<lparr>nodes := (nodes t)[par := ?n1]\<rparr>"
  note d = shapeD [OF sh]
  note ok = d(3) [OF par(1)]
  note inn = node_ok_inner [OF ok par(2)]
  have sh1: "shape lvl S X ?t1" by (rule insert_child_ok(1) [OF sh par rt key])
  have fr1: "frame t ?t1" by (rule insert_child_ok(2) [OF sh par rt key])
  have unf: "insertIntoParent t par key right =
     (if int (length (keys ?p)) + 1 \<ge> order t then
        (case splitInternal_halve ?t1 par of
           None \<Rightarrow> None
         | Some (t2, promoteKey, newNode) \<Rightarrow>
             (case parent (nodes t2 ! par) of
                None \<Rightarrow> Some (make_new_root t2 par promoteKey newNode)
              | Some pp \<Rightarrow>
                  Option.bind (insertIntoParent t2 pp promoteKey newNode)
                    (\<lambda>t3. Some (upd_node newNode
                                   (\<lambda>x. x\<lparr>parent := parent (nodes t3 ! par)\<rparr>) t3))))
      else Some ?t1)"
    using par(1) inn(1) insert_pos_le [of key "keys ?p"]
    by (subst insertIntoParent.simps) (simp add: node_at_def Let_def upd_node_def)
  show ?case
  proof (cases "int (length (keys ?p)) + 1 \<ge> order t")
    case False
    with unf have "insertIntoParent t par key right = Some ?t1" by simp
    moreover have "\<forall>a<?N. lvl a = lvl a" by simp
    ultimately show ?thesis using sh1 fr1 by blast
  next
    case True
    have k1: "1 \<le> length (keys (nodes ?t1 ! par))" using par(1) by (simp add: insert_at_length)
    have par1: "par < length (nodes ?t1)" "\<not> isLeaf (nodes ?t1 ! par)" using par by simp_all
    have N1: "length (nodes ?t1) = ?N" by simp
    from halve_ok [OF sh1 par1 k1] N1 obtain t2 pk where
      h: "splitInternal_halve ?t1 par = Some (t2, pk, ?N)"
         "shape (lvl(?N := lvl par)) S (insert ?N X) t2" "frame ?t1 t2"
         "length (nodes t2) = Suc ?N" "root t2 = root t" "[0] < pk"
      by auto
    let ?lvl2 = "lvl(?N := lvl par)"
    note d2 = shapeD [OF h(2)]
    have par2: "par < length (nodes t2)" using h(4) par(1) by simp
    note ok2 = d2(3) [OF par2]
    have lv2: "?lvl2 par = lvl par" using par(1) by simp
    have Nlt: "?N < length (nodes t2)" using h(4) by simp
    show ?thesis
    proof (cases "parent (nodes t2 ! par)")
      case None
      with ok2 have "par = root t2 \<or> par \<in> insert ?N X" by (simp add: node_ok_def)
      moreover have "par \<noteq> ?N" using par(1) by simp
      moreover have "par \<notin> X" using X by auto
      ultimately have pr: "par = root t2" by simp
      have lr: "?lvl2 ?N = ?lvl2 par" using par(1) by simp
      let ?lvl3 = "?lvl2(length (nodes t2) := Suc (?lvl2 par))"
      let ?t3 = "make_new_root t2 par pk ?N"
      note m0 = make_new_root_ok [OF h(2) pr Nlt lr h(6)]
      have m: "shape ?lvl3 (insert (length (nodes t2)) S) (insert ?N X - {?N}) ?t3"
        "frame t2 ?t3" using m0 by (rule conjunct1, rule conjunct2)
      have sh3: "shape ?lvl3 (insert (length (nodes t2)) S) X ?t3"
        by (rule shape_mono [OF m(1)]) auto
      have fr: "frame t ?t3" by (rule frame_trans [OF frame_trans [OF fr1 h(3)] m(2)])
      have res: "insertIntoParent t par key right = Some ?t3" using unf True h(1) None by simp
      have lv: "\<forall>a<?N. ?lvl3 a = lvl a" using h(4) by simp
      from res sh3 fr lv show ?thesis by blast
    next
      case (Some pp)
      with ok2 have pp: "pp < length (nodes t2)" "?lvl2 pp = Suc (?lvl2 par)"
        by (simp_all add: node_ok_def)
      note okpp = d2(3) [OF pp(1)]
      have nl: "\<not> isLeaf (nodes t2 ! pp)" using okpp pp(2) by (simp add: node_ok_def)
      have le: "?lvl2 pp \<le> ?lvl2 (root t2)" using okpp by (simp add: node_ok_def)
      have rr: "?lvl2 (root t2) = lvl (root t)" using h(5) d(2) by simp
      have meas: "?lvl2 (root t2) - ?lvl2 pp < lvl (root t) - lvl par"
        using le rr pp(2) lv2 by simp
      have sr: "Suc (?lvl2 ?N) = ?lvl2 pp" using pp(2) lv2 by simp
      have X2: "\<forall>x\<in>insert ?N X. x < length (nodes t2) \<and> ?lvl2 x < ?lvl2 pp"
      proof
        fix x assume x: "x \<in> insert ?N X"
        show "x < length (nodes t2) \<and> ?lvl2 x < ?lvl2 pp"
        proof (cases "x = ?N")
          case True
          with Nlt sr show ?thesis by simp
        next
          case False
          with x have "x \<in> X" by simp
          with X have "x < ?N" "lvl x < lvl par" by simp_all
          with h(4) pp(2) lv2 show ?thesis by simp
        qed
      qed
      from less.hyps [OF meas h(2) pp(1) nl Nlt sr h(6) X2] obtain t3 lvl3 S3 where
        r: "insertIntoParent t2 pp pk ?N = Some t3" "shape lvl3 S3 (insert ?N X) t3"
           "frame t2 t3" "\<forall>a<length (nodes t2). lvl3 a = ?lvl2 a"
        by blast
      note f3 = frameD [OF r(3)]
      note d3 = shapeD [OF r(2)]
      have par3: "par < length (nodes t3)" using f3(1) par2 by simp
      have N3: "?N < length (nodes t3)" using f3(1) Nlt by simp
      from f3(3) [OF par2] Some obtain q where q: "parent (nodes t3 ! par) = Some q"
        by (auto simp: kept_def)
      with d3(3) [OF par3] have qq: "q < length (nodes t3)" "lvl3 q = Suc (lvl3 par)"
        by (simp_all add: node_ok_def)
      have l3: "lvl3 par = lvl3 ?N" using r(4) par2 Nlt lv2 by simp
      let ?n4 = "(nodes t3 ! ?N)\<lparr>parent := Some q\<rparr>"
      let ?t4 = "t3\<lparr>nodes := (nodes t3)[?N := ?n4]\<rparr>"
      have lq: "lvl3 q = Suc (lvl3 ?N)" using qq(2) l3 by simp
      have ok4: "node_ok lvl3 (length (nodes t3)) (root t3) X ?N ?n4"
        by (rule node_ok_parent [OF d3(3) [OF N3] qq(1) lq])
      have sh4: "shape lvl3 S3 X ?t4"
        by (rule shape_upd [OF r(2) N3 ok4]) auto
      have fr4: "frame t3 ?t4"
        by (rule frame_upd [OF N3]) (simp add: kept_def)
      have res: "insertIntoParent t par key right = Some ?t4"
        using unf True h(1) Some r(1) q by (simp add: upd_node_def)
      have fr: "frame t ?t4"
        by (rule frame_trans [OF frame_trans [OF frame_trans [OF fr1 h(3)] r(3)] fr4])
      have lv: "\<forall>a<?N. lvl3 a = lvl a" using r(4) h(4) by simp
      from res sh4 fr lv show ?thesis by blast
    qed
  qed
qed

subsection \<open>splitLeaf and Insert\<close>

lemma take_drop_sum:
  "sum_list (map length (take i (vs :: bytes list))) + sum_list (map length (drop i vs))
     = sum_list (map length vs)"
proof -
  have "sum_list (map length (take i vs)) + sum_list (map length (drop i vs))
          = sum_list (map length (take i vs @ drop i vs))" by (simp only: map_append sum_list_append)
  also have "\<dots> = sum_list (map length vs)" by (simp only: append_take_drop_id)
  finally show ?thesis .
qed

lemma sorted_first_less:
  assumes "sorted_wrt (<) (ks :: bytes list)" and "[] \<notin> set ks" and "0 < i" and "i < length ks"
  shows "[0] < ks ! i"
proof -
  from assms(3,4) have 0: "0 < length ks" by (rule less_trans)
  from sorted_wrt_nth_less [OF assms(1,3,4)] have "ks ! 0 < ks ! i" .
  moreover from nth_mem [OF 0] assms(2) have "ks ! 0 \<noteq> []" by auto
  then have "[0] \<le> ks ! 0" by (rule nonempty_ge_zero)
  ultimately show ?thesis by simp
qed

lemma splitLeaf_ok:
  assumes sh: "shape lvl S {} t" and ch: "chained t ch"
    and lf: "lf < length (nodes t)" "isLeaf (nodes t ! lf)"
    and full: "order t \<le> int (length (keys (nodes t ! lf)))"
  shows "\<exists>t' lvl' S' ch'. splitLeaf t lf = Some t' \<and> shape lvl' S' {} t' \<and> chained t' ch' \<and>
           tot_count (nodes t') ch' = tot_count (nodes t) ch \<and>
           tot_bytes (nodes t') ch' = tot_bytes (nodes t) ch"
proof -
  let ?N = "length (nodes t)" and ?n = "nodes t ! lf"
  let ?mid = "length (keys ?n) div 2"
  let ?lvl2 = "lvl(?N := 0)"
  let ?nl = "newLeafNode\<lparr>keys := drop ?mid (keys ?n), vals := drop ?mid (vals ?n),
                          leafNext := leafNext ?n\<rparr>"
  let ?ta = "t\<lparr>nodes := nodes t @ [?nl]\<rparr>"
  let ?n2 = "?n\<lparr>keys := take ?mid (keys ?n), vals := take ?mid (vals ?n), leafNext := Some ?N\<rparr>"
  let ?h2 = "(nodes t @ [?nl])[lf := ?n2]"
  let ?t2 = "?ta\<lparr>nodes := (nodes ?ta)[lf := ?n2]\<rparr>"
  let ?pk = "keys ?n ! ?mid"
  note d = shapeD [OF sh]
  note l = leafD [OF sh lf]
  note ok = d(3) [OF lf(1)]
  have l0: "lvl lf = 0" using ok lf(2) by (simp add: node_ok_def)
  have len3: "3 \<le> length (keys ?n)" using d(1) full by simp
  then have mid: "0 < ?mid" "?mid < length (keys ?n)" by simp_all
  have h2: "nodes ?t2 = ?h2" by simp
  have N2: "length ?h2 = Suc ?N" by simp
  have hN: "?h2 ! ?N = ?nl" using lf(1) by (simp add: nth_append)
  have hlf: "?h2 ! lf = ?n2" using lf(1) by simp
  have hold: "\<And>a. a < ?N \<Longrightarrow> a \<noteq> lf \<Longrightarrow> ?h2 ! a = nodes t ! a"
    by (simp add: nth_append)
  have sd: "sorted_wrt (<) (drop ?mid (keys ?n))" using l(2) by (rule sorted_wrt_drop)
  have st: "sorted_wrt (<) (take ?mid (keys ?n))" using l(2) by (rule sorted_wrt_take)
  have nd: "[] \<notin> set (drop ?mid (keys ?n))" using l(3) in_set_dropD by fastforce
  have nt: "[] \<notin> set (take ?mid (keys ?n))" using l(3) in_set_takeD by fastforce
  have okn: "node_ok ?lvl2 (Suc ?N) (root t) {?N} ?N ?nl"
    using sd nd l(1) by (simp add: node_ok_def newLeafNode_def)
  have sha: "shape ?lvl2 S {?N} ?ta"
    by (rule shape_alloc [OF sh okn]) simp
  have lfa: "lf < length (nodes ?ta)" using lf(1) by simp
  have na: "nodes ?ta ! lf = ?n" using lf(1) by (simp add: nth_append)
  note oka = shapeD(3) [OF sha lfa]
  have ok2: "node_ok ?lvl2 (length (nodes ?ta)) (root ?ta) {?N} lf ?n2"
  proof (rule node_ok_leaf [OF oka])
    show "isLeaf (nodes ?ta ! lf)" using na lf(2) by simp
    show "isLeaf ?n2" using lf(2) by simp
    show "parent ?n2 = parent (nodes ?ta ! lf)" using na by simp
    show "length (vals ?n2) = length (keys ?n2)" using l(1) by simp
    show "sorted_wrt (<) (keys ?n2)" using st by simp
    show "[] \<notin> set (keys ?n2)" using nt by simp
  qed
  have sh2: "shape ?lvl2 S {?N} ?t2"
  proof (rule shape_upd [OF sha lfa ok2])
    show "isLeaf ?n2 = isLeaf (nodes ?ta ! lf)" using na by simp
    show "\<not> isLeaf ?n2 \<Longrightarrow> children ?n2 ! 0 = children (nodes ?ta ! lf) ! 0" using lf(2) by simp
  qed simp
  from ch have lc: "leaf_chain (nodes t) (Some 0) ch" and dc: "distinct ch"
    and sc: "set ch = {a. a < ?N \<and> isLeaf (nodes t ! a)}" by (simp_all add: chained_def)
  from sc lf have "lf \<in> set ch" by simp
  then obtain xs ys where chs: "ch = xs @ lf # ys" by (meson split_list)
  let ?ch' = "xs @ lf # ?N # ys"
  have inch: "\<And>a. a \<in> set (xs @ ys) \<Longrightarrow> a < ?N \<and> a \<noteq> lf"
  proof -
    fix a assume a: "a \<in> set (xs @ ys)"
    then have "a \<in> set ch" using chs by auto
    with sc have "a < ?N" by simp
    moreover from a dc chs have "a \<noteq> lf" by auto
    ultimately show "a < ?N \<and> a \<noteq> lf" by simp
  qed
  have same: "\<And>a. a \<in> set (xs @ ys) \<Longrightarrow> ?h2 ! a = nodes t ! a"
  proof -
    fix a assume "a \<in> set (xs @ ys)"
    from inch [OF this] hold show "?h2 ! a = nodes t ! a" by simp
  qed
  have lc2: "leaf_chain ?h2 (Some 0) ?ch'"
  proof (rule leaf_chain_split)
    show "leaf_chain (nodes t) (Some 0) (xs @ lf # ys)" using lc chs by simp
    show "distinct (xs @ lf # ys)" using dc chs by simp
    show "\<forall>a\<in>set (xs @ ys). a < length ?h2 \<and> leafNext (?h2 ! a) = leafNext (nodes t ! a)"
    proof
      fix a assume a: "a \<in> set (xs @ ys)"
      from inch [OF a] same [OF a]
      show "a < length ?h2 \<and> leafNext (?h2 ! a) = leafNext (nodes t ! a)" by simp
    qed
    show "lf < length ?h2" using lf(1) by simp
    show "leafNext (?h2 ! lf) = Some ?N" using hlf by simp
    show "?N < length ?h2" by simp
    show "leafNext (?h2 ! ?N) = leafNext (nodes t ! lf)" using hN by (simp add: newLeafNode_def)
  qed
  have Nch: "?N \<notin> set ch" using sc by simp
  have dc2: "distinct ?ch'" using dc chs Nch by auto
  have set2: "set ?ch' = {a. a < length ?h2 \<and> isLeaf (?h2 ! a)}"
  proof -
    have "\<And>a. (a < length ?h2 \<and> isLeaf (?h2 ! a)) = (a = ?N \<or> a \<in> set ch)"
    proof -
      fix a
      show "(a < length ?h2 \<and> isLeaf (?h2 ! a)) = (a = ?N \<or> a \<in> set ch)"
      proof (cases "a = ?N")
        case True
        with hN show ?thesis by (simp add: newLeafNode_def)
      next
        case nN: False
        show ?thesis
        proof (cases "a < ?N")
          case a: True
          show ?thesis
          proof (cases "a = lf")
            case True
            with hlf lf sc show ?thesis by simp
          next
            case False
            with hold [OF a] sc a nN show ?thesis by simp
          qed
        next
          case False
          with nN sc show ?thesis by simp
        qed
      qed
    qed
    then have "{a. a < length ?h2 \<and> isLeaf (?h2 ! a)} = insert ?N (set ch)" by auto
    with chs show ?thesis by auto
  qed
  have ch2: "chained ?t2 ?ch'"
    using lc2 dc2 set2 by (simp add: chained_def)
  have mx: "map (\<lambda>a. length (keys (?h2 ! a))) xs = map (\<lambda>a. length (keys (nodes t ! a))) xs"
    by (rule map_cong) (simp_all add: same)
  have my: "map (\<lambda>a. length (keys (?h2 ! a))) ys = map (\<lambda>a. length (keys (nodes t ! a))) ys"
    by (rule map_cong) (simp_all add: same)
  have bx: "map (\<lambda>a. sum_list (map length (vals (?h2 ! a)))) xs
              = map (\<lambda>a. sum_list (map length (vals (nodes t ! a)))) xs"
    by (rule map_cong) (simp_all add: same)
  have by': "map (\<lambda>a. sum_list (map length (vals (?h2 ! a)))) ys
              = map (\<lambda>a. sum_list (map length (vals (nodes t ! a)))) ys"
    by (rule map_cong) (simp_all add: same)
  have kl: "length (keys (?h2 ! lf)) + length (keys (?h2 ! ?N)) = length (keys ?n)"
    using hlf hN mid by (simp add: newLeafNode_def)
  have vl: "sum_list (map length (vals (?h2 ! lf))) + sum_list (map length (vals (?h2 ! ?N)))
              = sum_list (map length (vals ?n))"
    using hlf hN take_drop_sum [of ?mid "vals ?n"] by (simp add: newLeafNode_def)
  have tc2: "tot_count ?h2 ?ch' = tot_count (nodes t) ch"
    using kl by (simp add: tot_count_def chs mx my)
  have tb2: "tot_bytes ?h2 ?ch' = tot_bytes (nodes t) ch"
    using vl by (simp add: tot_bytes_def chs bx by')
  have pk: "[0] < ?pk" by (rule sorted_first_less [OF l(2,3) mid])
  have lf2: "lf < length (nodes ?t2)" using lf(1) by simp
  have Nlt: "?N < length (nodes ?t2)" by simp
  have unf: "splitLeaf t lf =
     (case parent (nodes ?t2 ! lf) of
        None \<Rightarrow> Some (make_new_root ?t2 lf ?pk ?N)
      | Some pp \<Rightarrow>
          Option.bind (insertIntoParent ?t2 pp ?pk ?N)
            (\<lambda>t3. Some (upd_node ?N (\<lambda>x. x\<lparr>parent := parent (nodes t3 ! lf)\<rparr>) t3)))"
    using lf(1) mid l(1)
    by (cases "parent (nodes t ! lf)")
       (simp_all add: splitLeaf_def node_at_def alloc_node_def Let_def upd_node_def nth_append)
  note d2 = shapeD [OF sh2]
  note okl = d2(3) [OF lf2]
  have lv0: "?lvl2 ?N = ?lvl2 lf" using l0 lf(1) by simp
  show ?thesis
  proof (cases "parent (nodes ?t2 ! lf)")
    case None
    with okl have "lf = root ?t2 \<or> lf \<in> {?N}" unfolding node_ok_def by blast
    with lf(1) have pr: "lf = root ?t2" by simp
    let ?lvl3 = "?lvl2(length (nodes ?t2) := Suc (?lvl2 lf))"
    let ?t3 = "make_new_root ?t2 lf ?pk ?N"
    note m0 = make_new_root_ok [OF sh2 pr Nlt lv0 pk]
    have m: "shape ?lvl3 (insert (length (nodes ?t2)) S) ({?N} - {?N}) ?t3" "frame ?t2 ?t3"
      using m0 by (rule conjunct1, rule conjunct2)
    have sh3: "shape ?lvl3 (insert (length (nodes ?t2)) S) {} ?t3"
      by (rule shape_mono [OF m(1)]) simp
    note c3 = chained_frame [OF ch2 m(2)]
    have res: "splitLeaf t lf = Some ?t3" using unf None by simp
    from c3(2) tc2 have tc: "tot_count (nodes ?t3) ?ch' = tot_count (nodes t) ch" by simp
    from c3(3) tb2 have tb: "tot_bytes (nodes ?t3) ?ch' = tot_bytes (nodes t) ch" by simp
    from res sh3 c3(1) tc tb show ?thesis by blast
  next
    case (Some pp)
    with okl have pp: "pp < length (nodes ?t2)" "?lvl2 pp = Suc (?lvl2 lf)"
      unfolding node_ok_def by blast+
    note okpp = d2(3) [OF pp(1)]
    have nl: "\<not> isLeaf (nodes ?t2 ! pp)" using okpp pp(2) unfolding node_ok_def by simp
    have sr: "Suc (?lvl2 ?N) = ?lvl2 pp" using pp(2) lv0 by simp
    have X2: "\<forall>x\<in>{?N}. x < length (nodes ?t2) \<and> ?lvl2 x < ?lvl2 pp" using sr by simp
    from insertIntoParent_ok [OF sh2 pp(1) nl Nlt sr pk X2] obtain t3 lvl3 S3 where
      r: "insertIntoParent ?t2 pp ?pk ?N = Some t3" "shape lvl3 S3 {?N} t3"
         "frame ?t2 t3" "\<forall>a<length (nodes ?t2). lvl3 a = ?lvl2 a"
      by blast
    note f3 = frameD [OF r(3)]
    note d3 = shapeD [OF r(2)]
    have lf3: "lf < length (nodes t3)" using f3(1) lf2 by simp
    have N3: "?N < length (nodes t3)" using f3(1) Nlt by simp
    from f3(3) [OF lf2] Some obtain q where q: "parent (nodes t3 ! lf) = Some q"
      by (auto simp: kept_def)
    with d3(3) [OF lf3] have qq: "q < length (nodes t3)" "lvl3 q = Suc (lvl3 lf)"
      unfolding node_ok_def by blast+
    have l3: "lvl3 lf = lvl3 ?N" using r(4) lf2 Nlt lv0 by simp
    let ?n4 = "(nodes t3 ! ?N)\<lparr>parent := Some q\<rparr>"
    let ?t4 = "t3\<lparr>nodes := (nodes t3)[?N := ?n4]\<rparr>"
    have lq: "lvl3 q = Suc (lvl3 ?N)" using qq(2) l3 by simp
    have ok4: "node_ok lvl3 (length (nodes t3)) (root t3) {} ?N ?n4"
      by (rule node_ok_parent [OF d3(3) [OF N3] qq(1) lq])
    have sh4: "shape lvl3 S3 {} ?t4"
      by (rule shape_upd [OF r(2) N3 ok4]) auto
    have fr4: "frame t3 ?t4"
      by (rule frame_upd [OF N3]) (simp add: kept_def)
    have res: "splitLeaf t lf = Some ?t4"
      using unf Some r(1) q by (simp add: upd_node_def)
    note c4 = chained_frame [OF ch2 frame_trans [OF r(3) fr4]]
    from c4(2) tc2 have tc: "tot_count (nodes ?t4) ?ch' = tot_count (nodes t) ch" by simp
    from c4(3) tb2 have tb: "tot_bytes (nodes ?t4) ?ch' = tot_bytes (nodes t) ch" by simp
    from res sh4 c4(1) tc tb show ?thesis by blast
  qed
qed

lemma Insert_ok:
  assumes sh: "shape lvl S {} t" and ch: "chained t ch" and k: "key \<noteq> []"
    and f: "findLeaf t key = Some lf" and lf: "lf < length (nodes t)" "isLeaf (nodes t ! lf)"
  shows "\<exists>t' lvl' S' ch'. Insert t key val = Some (None, t') \<and> shape lvl' S' {} t' \<and>
           chained t' ch' \<and>
           (if key \<in> set (keys (nodes t ! lf))
            then tot_count (nodes t') ch' = tot_count (nodes t) ch \<and>
                 tot_bytes (nodes t') ch'
                   + length (vals (nodes t ! lf) ! insert_pos key (keys (nodes t ! lf)))
                   = tot_bytes (nodes t) ch + length val
            else tot_count (nodes t') ch' = tot_count (nodes t) ch + 1 \<and>
                 tot_bytes (nodes t') ch' = tot_bytes (nodes t) ch + length val)"
proof -
  from insertIntoLeaf_ok [OF sh ch k lf, of val] obtain t1 where
    t1: "insertIntoLeaf t lf key val = Some t1" "shape lvl S {} t1" "chained t1 ch"
      "length (nodes t1) = length (nodes t)" "isLeaf (nodes t1 ! lf)" "order t1 = order t"
    and tot: "if key \<in> set (keys (nodes t ! lf))
            then tot_count (nodes t1) ch = tot_count (nodes t) ch \<and>
                 tot_bytes (nodes t1) ch
                   + length (vals (nodes t ! lf) ! insert_pos key (keys (nodes t ! lf)))
                   = tot_bytes (nodes t) ch + length val
            else tot_count (nodes t1) ch = tot_count (nodes t) ch + 1 \<and>
                 tot_bytes (nodes t1) ch = tot_bytes (nodes t) ch + length val"
    by blast
  have unf: "Insert t key val =
     (if int (length (keys (nodes t1 ! lf))) \<ge> order t1 then
        (case splitLeaf t1 lf of None \<Rightarrow> None | Some t2 \<Rightarrow> Some (None, t2))
      else Some (None, t1))"
    using k f t1(1) by (simp add: Insert_def)
  show ?thesis
  proof (cases "int (length (keys (nodes t1 ! lf))) \<ge> order t1")
    case False
    with unf have "Insert t key val = Some (None, t1)" by simp
    with t1(2,3) tot show ?thesis by blast
  next
    case True
    have lf1: "lf < length (nodes t1)" using t1(4) lf(1) by simp
    from splitLeaf_ok [OF t1(2,3) lf1 t1(5) True] obtain t' lvl' S' ch' where
      s: "splitLeaf t1 lf = Some t'" "shape lvl' S' {} t'" "chained t' ch'"
         "tot_count (nodes t') ch' = tot_count (nodes t1) ch"
         "tot_bytes (nodes t') ch' = tot_bytes (nodes t1) ch"
      by blast
    from unf True s(1) have "Insert t key val = Some (None, t')" by simp
    moreover from tot s(4,5) have
      "if key \<in> set (keys (nodes t ! lf))
            then tot_count (nodes t') ch' = tot_count (nodes t) ch \<and>
                 tot_bytes (nodes t') ch'
                   + length (vals (nodes t ! lf) ! insert_pos key (keys (nodes t ! lf)))
                   = tot_bytes (nodes t) ch + length val
            else tot_count (nodes t') ch' = tot_count (nodes t) ch + 1 \<and>
                 tot_bytes (nodes t') ch' = tot_bytes (nodes t) ch + length val"
      by simp
    ultimately show ?thesis using s(2,3) by blast
  qed
qed

subsection \<open>The full scan of a record store\<close>

lemma cursor_records_stop:
  "length ks \<le> i \<Longrightarrow>
   cursor_records \<lparr>cur_keys = ks, cur_values = vs, cur_index = int i - 1\<rparr> = []"
  by (subst cursor_records.simps) (simp add: Next_def del: cursor_records.simps)

lemma cursor_records_step:
  "i < length ks \<Longrightarrow> length vs = length ks \<Longrightarrow>
   cursor_records \<lparr>cur_keys = ks, cur_values = vs, cur_index = int i - 1\<rparr>
     = (NewRecordIdFromBytes (ks ! i), Some (vs ! i))
       # cursor_records \<lparr>cur_keys = ks, cur_values = vs, cur_index = int (Suc i) - 1\<rparr>"
  by (subst cursor_records.simps)
     (simp add: Next_def cursor_RecordId_def Data_def del: cursor_records.simps)

lemma cursor_records_from:
  "i \<le> length ks \<Longrightarrow> length vs = length ks \<Longrightarrow>
   cursor_records \<lparr>cur_keys = ks, cur_values = vs, cur_index = int i - 1\<rparr>
     = map (\<lambda>j. (NewRecordIdFromBytes (ks ! j), Some (vs ! j))) [i..<length ks]"
proof (induction "length ks - i" arbitrary: i)
  case 0
  then have i: "length ks \<le> i" by arith
  then have "[i..<length ks] = []" by simp
  with cursor_records_stop [OF i, of vs] show ?case by (simp only: list.map)
next
  case (Suc n)
  from Suc.hyps(2) have i: "i < length ks" and n: "n = length ks - Suc i" by arith+
  from i have le: "Suc i \<le> length ks" by arith
  note ih = Suc.hyps(1) [OF n le Suc.prems(2)]
  from i have u: "[i..<length ks] = i # [Suc i..<length ks]" by (rule upt_conv_Cons)
  show ?case
    by (simp only: cursor_records_step [OF i Suc.prems(2)] ih u list.map)
qed

lemma cursor_records_all:
  assumes "length vs = length ks"
  shows "length (cursor_records \<lparr>cur_keys = ks, cur_values = vs, cur_index = - 1\<rparr>) = length ks"
    and "sum_list (map payload_size (cursor_records \<lparr>cur_keys = ks, cur_values = vs, cur_index = - 1\<rparr>))
           = sum_list (map length vs)"
proof -
  have c: "cursor_records \<lparr>cur_keys = ks, cur_values = vs, cur_index = - 1\<rparr>
             = map (\<lambda>j. (NewRecordIdFromBytes (ks ! j), Some (vs ! j))) [0..<length ks]"
    using cursor_records_from [of 0 ks vs] assms by (simp del: cursor_records.simps)
  show "length (cursor_records \<lparr>cur_keys = ks, cur_values = vs, cur_index = - 1\<rparr>) = length ks"
    by (simp add: c del: cursor_records.simps)
  have "map payload_size (map (\<lambda>j. (NewRecordIdFromBytes (ks ! j), Some (vs ! j))) [0..<length ks])
          = map (\<lambda>j. length (vs ! j)) [0..<length vs]"
    using assms by (simp add: payload_size_def)
  also have "\<dots> = map length (map ((!) vs) [0..<length vs])" by simp
  also have "\<dots> = map length vs" by (simp only: map_nth)
  finally show "sum_list (map payload_size (cursor_records \<lparr>cur_keys = ks, cur_values = vs, cur_index = - 1\<rparr>))
           = sum_list (map length vs)"
    by (simp only: c)
qed

lemma length_entries:
  "\<forall>b\<in>set ch. length (vals (h ! b)) = length (keys (h ! b)) \<Longrightarrow>
   length (entries h ch) = tot_count h ch"
  by (induction ch) (simp_all add: entries_def leaf_entries_def tot_count_def)

lemma bytes_entries:
  "\<forall>b\<in>set ch. length (vals (h ! b)) = length (keys (h ! b)) \<Longrightarrow>
   sum_list (map length (map snd (entries h ch))) = tot_bytes h ch"
  by (induction ch) (simp_all add: entries_def leaf_entries_def tot_bytes_def)

lemma keys_entries:
  "kv \<in> set (entries h ch) \<Longrightarrow> \<exists>b\<in>set ch. fst kv \<in> set (keys (h ! b))"
proof (induction ch)
  case Nil
  then show ?case by (simp add: entries_def)
next
  case (Cons a ch)
  from Cons.prems have "kv \<in> set (zip (keys (h ! a)) (vals (h ! a))) \<or> kv \<in> set (entries h ch)"
    by (simp add: entries_def leaf_entries_def)
  then show ?case
  proof
    assume "kv \<in> set (zip (keys (h ! a)) (vals (h ! a)))"
    then have "fst kv \<in> set (keys (h ! a))"
      using set_zip_leftD [of "fst kv" "snd kv" "keys (h ! a)" "vals (h ! a)"] by simp
    then show ?thesis by simp
  next
    assume "kv \<in> set (entries h ch)"
    from Cons.IH [OF this] show ?thesis by auto
  qed
qed

lemma scan_entries_from_zero:
  assumes "\<forall>kv\<in>set es. fst kv \<noteq> []"
  shows "scan_entries [0] None es = es"
proof -
  have "\<forall>kv\<in>set es. [0] \<le> fst kv" using assms nonempty_ge_zero by blast
  then have "filter (\<lambda>kv. [0] \<le> fst kv) es = es" by (simp add: filter_id_conv)
  moreover have tw: "takeWhile (\<lambda>kv. True) es = es" by (induction es) simp_all
  ultimately show ?thesis by (simp add: scan_entries_def past_end_def tw)
qed

lemma Scan_inv:
  assumes sh: "shape lvl S {} (BTreeRecordStore.tree rs)" and ch: "chained (BTreeRecordStore.tree rs) ch"
  shows "\<exists>c. Scan rs NullRecordId = Some (Inr c) \<and>
           length (cursor_records c) = tot_count (nodes (BTreeRecordStore.tree rs)) ch \<and>
           sum_list (map payload_size (cursor_records c))
             = tot_bytes (nodes (BTreeRecordStore.tree rs)) ch"
proof -
  let ?t = "BTreeRecordStore.tree rs"
  let ?h = "nodes ?t"
  let ?es = "entries ?h ch"
  note d = shapeD [OF sh]
  from ch have lc: "leaf_chain ?h (Some 0) ch"
    and sc: "set ch = {a. a < length ?h \<and> isLeaf (?h ! a)}" by (simp_all add: chained_def)
  have lens: "\<forall>b\<in>set ch. length (vals (?h ! b)) = length (keys (?h ! b))"
  proof
    fix b assume "b \<in> set ch"
    with sc have "b < length ?h" "isLeaf (?h ! b)" by simp_all
    from leafD(1) [OF sh this] show "length (vals (?h ! b)) = length (keys (?h ! b))" .
  qed
  have ne: "\<forall>kv\<in>set ?es. fst kv \<noteq> []"
  proof
    fix kv assume "kv \<in> set ?es"
    from keys_entries [OF this] obtain b where b: "b \<in> set ch" "fst kv \<in> set (keys (?h ! b))"
      by blast
    from b(1) sc have "b < length ?h" "isLeaf (?h ! b)" by simp_all
    from leafD(3) [OF sh this] b(2) show "fst kv \<noteq> []" by auto
  qed
  have "root ?t \<in> S" using d(4) by (simp add: spine_def)
  from findLeaf_first [OF sh this] have fl: "findLeaf ?t [0] = Some 0" by (simp add: findLeaf_def)
  from range_walk_chain [OF lc refl lens, of "[0]" None "([], [])"]
  have "range_walk ?t [0] None (Some 0) ([], []) =
          Some (map fst (scan_entries [0] None ?es), map snd (scan_entries [0] None ?es))"
    by simp
  with scan_entries_from_zero [OF ne]
  have rw: "range_walk ?t [0] None (Some 0) ([], []) = Some (map fst ?es, map snd ?es)" by simp
  have rg: "Range ?t (Some [0]) None = Some (map fst ?es, map snd ?es)"
    using fl rw by (simp add: Range_def nil_bytes_def)
  let ?c = "\<lparr>cur_keys = map fst ?es, cur_values = map snd ?es, cur_index = - 1\<rparr>"
  have sc': "Scan rs NullRecordId = Some (Inr ?c)"
    using rg by (simp add: Scan_def NullRecordId_def IsNull_def)
  have l: "length (map snd ?es) = length (map fst ?es)" by simp
  note cr = cursor_records_all [OF l]
  from cr(1) length_entries [OF lens]
  have 1: "length (cursor_records ?c) = tot_count ?h ch" by (simp del: cursor_records.simps)
  from cr(2) bytes_entries [OF lens]
  have 2: "sum_list (map payload_size (cursor_records ?c)) = tot_bytes ?h ch"
    by (simp del: cursor_records.simps)
  from sc' 1 2 show ?thesis by blast
qed

lemma rs_inv_counters: "rs_inv rs \<Longrightarrow> counters_ok rs"
proof -
  assume "rs_inv rs"
  then obtain lvl S ch where i: "shape lvl S {} (BTreeRecordStore.tree rs)"
    "chained (BTreeRecordStore.tree rs) ch"
    "numRecords rs = word_of_nat (tot_count (nodes (BTreeRecordStore.tree rs)) ch)"
    "dataSize rs = word_of_nat (tot_bytes (nodes (BTreeRecordStore.tree rs)) ch)"
    unfolding rs_inv_def by blast
  from Scan_inv [OF i(1,2)] obtain c where c: "Scan rs NullRecordId = Some (Inr c)"
    "length (cursor_records c) = tot_count (nodes (BTreeRecordStore.tree rs)) ch"
    "sum_list (map payload_size (cursor_records c)) = tot_bytes (nodes (BTreeRecordStore.tree rs)) ch"
    by blast
  with i(3,4) show "counters_ok rs"
    by (simp add: counters_ok_def NumRecords_def DataSize_def del: cursor_records.simps)
qed

lemma rs_inv_new: "rs_inv (rs\<lparr>BTreeRecordStore.tree := NewBTree 128, numRecords := 0, dataSize := 0\<rparr>)"
proof -
  let ?t = "NewBTree 128"
  have n: "nodes ?t = [newLeafNode]" "root ?t = 0" "order ?t = 128" by (simp_all add: NewBTree_def)
  have "node_ok (\<lambda>_. 0) 1 0 {} 0 newLeafNode" by (simp add: node_ok_def newLeafNode_def)
  moreover have "spine {0} ?t" by (simp add: spine_def n newLeafNode_def)
  ultimately have sh: "shape (\<lambda>_. 0) {0} {} ?t" by (simp add: shape_def n)
  have "{a. a < Suc 0 \<and> isLeaf ([newLeafNode] ! a)} = {0}" by (auto simp: newLeafNode_def)
  then have ch: "chained ?t [0]" by (simp add: chained_def n newLeafNode_def)
  have "tot_count (nodes ?t) [0] = 0" "tot_bytes (nodes ?t) [0] = 0"
    by (simp_all add: tot_count_def tot_bytes_def n newLeafNode_def)
  with sh ch show ?thesis unfolding rs_inv_def by (intro exI [of _ "\<lambda>_. 0"] exI [of _ "{0}"] exI [of _ "[0]"]) simp
qed

lemma rs_inv_NewRecordStore: "rs_inv (NewRecordStore ns)"
proof -
  have "NewRecordStore ns = (NewRecordStore ns)\<lparr>BTreeRecordStore.tree := NewBTree 128, numRecords := 0, dataSize := 0\<rparr>"
    by (simp add: NewRecordStore_def)
  then show ?thesis using rs_inv_new [of "NewRecordStore ns"] by simp
qed

subsection \<open>The operations of the record store keep the counters right\<close>

lemma rs_tree_same: "rs\<lparr>BTreeRecordStore.tree := BTreeRecordStore.tree rs\<rparr> = rs"
  by simp

lemma rs_invI:
  assumes "shape lvl S {} t" and "chained t ch"
    and "n = word_of_nat (tot_count (nodes t) ch)" and "b = word_of_nat (tot_bytes (nodes t) ch)"
  shows "rs_inv (rs\<lparr>BTreeRecordStore.tree := t, numRecords := n, dataSize := b\<rparr>)"
  unfolding rs_inv_def using assms
  by (intro exI [of _ lvl] exI [of _ S] exI [of _ ch]) simp

lemma InsertRecord_inv:
  assumes inv: "rs_inv rs"
  shows "\<exists>e rs'. InsertRecord rs r d = Some (e, rs') \<and> rs_inv rs'"
proof -
  let ?t = "BTreeRecordStore.tree rs" and ?k = "fst (AsBytes r)"
  from inv obtain lvl S ch where i: "shape lvl S {} ?t" "chained ?t ch"
    "numRecords rs = word_of_nat (tot_count (nodes ?t) ch)"
    "dataSize rs = word_of_nat (tot_bytes (nodes ?t) ch)"
    unfolding rs_inv_def by blast
  show ?thesis
  proof (cases "IsNull r \<or> \<not> snd (AsBytes r)")
    case True
    then have "\<exists>e. InsertRecord rs r d = Some (e, rs)" by (auto simp: InsertRecord_def)
    with inv show ?thesis by blast
  next
    case nn: False
    show ?thesis
    proof (cases "?k = []")
      case True
      with nn have "\<exists>e. InsertRecord rs r d = Some (e, rs)"
        by (simp add: InsertRecord_def Get_def Insert_def)
      with inv show ?thesis by blast
    next
      case k: False
      from findLeaf_ok [OF i(1), of ?k] obtain lf where
        lf: "findLeaf ?t ?k = Some lf" "lf < length (nodes ?t)" "isLeaf (nodes ?t ! lf)" by blast
      note g = Get_char [OF i(1) k lf]
      show ?thesis
      proof (cases "?k \<in> set (keys (nodes ?t ! lf))")
        case True
        with g nn have "\<exists>e. InsertRecord rs r d = Some (e, rs)"
          by (simp add: InsertRecord_def)
        with inv show ?thesis by blast
      next
        case nk: False
        with g have gn: "Get ?t ?k = Some None" by simp
        from Insert_ok [OF i(1,2) k lf, of d] obtain t' lvl' S' ch' where
          r: "Insert ?t ?k d = Some (None, t')" "shape lvl' S' {} t'" "chained t' ch'"
          and tt: "if ?k \<in> set (keys (nodes ?t ! lf))
            then tot_count (nodes t') ch' = tot_count (nodes ?t) ch \<and>
                 tot_bytes (nodes t') ch'
                   + length (vals (nodes ?t ! lf) ! insert_pos ?k (keys (nodes ?t ! lf)))
                   = tot_bytes (nodes ?t) ch + length d
            else tot_count (nodes t') ch' = tot_count (nodes ?t) ch + 1 \<and>
                 tot_bytes (nodes t') ch' = tot_bytes (nodes ?t) ch + length d"
          by blast
        from tt nk have t: "tot_count (nodes t') ch' = tot_count (nodes ?t) ch + 1"
          "tot_bytes (nodes t') ch' = tot_bytes (nodes ?t) ch + length d" by simp_all
        let ?rs' = "rs\<lparr>BTreeRecordStore.tree := t', numRecords := numRecords rs + 1,
                         dataSize := dataSize rs + word_of_nat (length d)\<rparr>"
        have e: "InsertRecord rs r d = Some (None, ?rs')"
          using nn gn r(1) by (simp add: InsertRecord_def)
        have "rs_inv ?rs'"
          by (rule rs_invI [OF r(2,3)]) (simp_all add: i(3,4) t)
        with e show ?thesis by blast
      qed
    qed
  qed
qed

lemma UpdateRecord_inv:
  assumes inv: "rs_inv rs"
  shows "\<exists>e rs'. UpdateRecord rs r d = Some (e, rs') \<and> rs_inv rs'"
proof -
  let ?t = "BTreeRecordStore.tree rs" and ?k = "fst (AsBytes r)"
  from inv obtain lvl S ch where i: "shape lvl S {} ?t" "chained ?t ch"
    "numRecords rs = word_of_nat (tot_count (nodes ?t) ch)"
    "dataSize rs = word_of_nat (tot_bytes (nodes ?t) ch)"
    unfolding rs_inv_def by blast
  show ?thesis
  proof (cases "IsNull r \<or> \<not> snd (AsBytes r)")
    case True
    then have "\<exists>e. UpdateRecord rs r d = Some (e, rs)" by (auto simp: UpdateRecord_def)
    with inv show ?thesis by blast
  next
    case nn: False
    show ?thesis
    proof (cases "?k = []")
      case True
      with nn have "\<exists>e. UpdateRecord rs r d = Some (e, rs)"
        by (simp add: UpdateRecord_def Get_def)
      with inv show ?thesis by blast
    next
      case k: False
      from findLeaf_ok [OF i(1), of ?k] obtain lf where
        lf: "findLeaf ?t ?k = Some lf" "lf < length (nodes ?t)" "isLeaf (nodes ?t ! lf)" by blast
      note g = Get_char [OF i(1) k lf]
      show ?thesis
      proof (cases "?k \<in> set (keys (nodes ?t ! lf))")
        case False
        with g nn have "\<exists>e. UpdateRecord rs r d = Some (e, rs)"
          by (simp add: UpdateRecord_def)
        with inv show ?thesis by blast
      next
        case m: True
        let ?old = "vals (nodes ?t ! lf) ! insert_pos ?k (keys (nodes ?t ! lf))"
        from m g have gs: "Get ?t ?k = Some (Some ?old)" by simp
        from Insert_ok [OF i(1,2) k lf, of d] obtain t' lvl' S' ch' where
          r: "Insert ?t ?k d = Some (None, t')" "shape lvl' S' {} t'" "chained t' ch'"
          and tt: "if ?k \<in> set (keys (nodes ?t ! lf))
            then tot_count (nodes t') ch' = tot_count (nodes ?t) ch \<and>
                 tot_bytes (nodes t') ch' + length ?old = tot_bytes (nodes ?t) ch + length d
            else tot_count (nodes t') ch' = tot_count (nodes ?t) ch + 1 \<and>
                 tot_bytes (nodes t') ch' = tot_bytes (nodes ?t) ch + length d"
          by blast
        from tt m have t: "tot_count (nodes t') ch' = tot_count (nodes ?t) ch"
          "tot_bytes (nodes t') ch' + length ?old = tot_bytes (nodes ?t) ch + length d"
          by simp_all
        have "(word_of_nat (tot_bytes (nodes t') ch' + length ?old) :: 64 word)
                = word_of_nat (tot_bytes (nodes ?t) ch + length d)"
          by (simp only: t(2))
        then have w: "(word_of_nat (tot_bytes (nodes t') ch') :: 64 word)
                = word_of_nat (tot_bytes (nodes ?t) ch)
                  + (word_of_nat (length d) - word_of_nat (length ?old))"
          by (simp add: algebra_simps)
        let ?rs' = "rs\<lparr>BTreeRecordStore.tree := t',
                         dataSize := dataSize rs +
                           (word_of_nat (length d) - word_of_nat (length ?old))\<rparr>"
        have e: "UpdateRecord rs r d = Some (None, ?rs')"
          using nn gs r(1) by (simp add: UpdateRecord_def)
        have "rs_inv (rs\<lparr>BTreeRecordStore.tree := t', numRecords := numRecords rs,
                          dataSize := dataSize rs +
                           (word_of_nat (length d) - word_of_nat (length ?old))\<rparr>)"
          by (rule rs_invI [OF r(2,3)]) (simp_all add: i(3,4) t(1) w)
        then have "rs_inv ?rs'" by simp
        with e show ?thesis by blast
      qed
    qed
  qed
qed

lemma DeleteRecord_inv:
  assumes inv: "rs_inv rs"
  shows "\<exists>e rs'. DeleteRecord rs r = Some (e, rs') \<and> rs_inv rs'"
proof -
  let ?t = "BTreeRecordStore.tree rs" and ?k = "fst (AsBytes r)"
  from inv obtain lvl S ch where i: "shape lvl S {} ?t" "chained ?t ch"
    "numRecords rs = word_of_nat (tot_count (nodes ?t) ch)"
    "dataSize rs = word_of_nat (tot_bytes (nodes ?t) ch)"
    unfolding rs_inv_def by blast
  show ?thesis
  proof (cases "IsNull r \<or> \<not> snd (AsBytes r)")
    case True
    then have "\<exists>e. DeleteRecord rs r = Some (e, rs)" by (auto simp: DeleteRecord_def)
    with inv show ?thesis by blast
  next
    case nn: False
    show ?thesis
    proof (cases "?k = []")
      case True
      with nn have "\<exists>e. DeleteRecord rs r = Some (e, rs)"
        by (simp add: DeleteRecord_def Get_def)
      with inv show ?thesis by blast
    next
      case k: False
      from findLeaf_ok [OF i(1), of ?k] obtain lf where
        lf: "findLeaf ?t ?k = Some lf" "lf < length (nodes ?t)" "isLeaf (nodes ?t ! lf)" by blast
      note g = Get_char [OF i(1) k lf]
      show ?thesis
      proof (cases "?k \<in> set (keys (nodes ?t ! lf))")
        case False
        with g nn have "\<exists>e. DeleteRecord rs r = Some (e, rs)"
          by (simp add: DeleteRecord_def)
        with inv show ?thesis by blast
      next
        case m: True
        let ?old = "vals (nodes ?t ! lf) ! insert_pos ?k (keys (nodes ?t ! lf))"
        from m g have gs: "Get ?t ?k = Some (Some ?old)" by simp
        from Delete_ok [OF i(1,2) k lf m] obtain t' where
          r: "Delete ?t ?k = Some (None, t')" "shape lvl S {} t'" "chained t' ch"
             "tot_count (nodes t') ch + 1 = tot_count (nodes ?t) ch"
             "tot_bytes (nodes t') ch + length ?old = tot_bytes (nodes ?t) ch"
          by blast
        have "(word_of_nat (tot_count (nodes t') ch + 1) :: 64 word)
                = word_of_nat (tot_count (nodes ?t) ch)"
          by (simp only: r(4))
        then have w1: "(word_of_nat (tot_count (nodes t') ch) :: 64 word)
                = word_of_nat (tot_count (nodes ?t) ch) - 1"
          by (simp add: algebra_simps)
        have "(word_of_nat (tot_bytes (nodes t') ch + length ?old) :: 64 word)
                = word_of_nat (tot_bytes (nodes ?t) ch)"
          by (simp only: r(5))
        then have w2: "(word_of_nat (tot_bytes (nodes t') ch) :: 64 word)
                = word_of_nat (tot_bytes (nodes ?t) ch) - word_of_nat (length ?old)"
          by (simp add: algebra_simps)
        let ?rs' = "rs\<lparr>BTreeRecordStore.tree := t', numRecords := numRecords rs - 1,
                         dataSize := dataSize rs - word_of_nat (length ?old)\<rparr>"
        have e: "DeleteRecord rs r = Some (None, ?rs')"
          using nn gs r(1) by (simp add: DeleteRecord_def)
        have "rs_inv ?rs'"
          by (rule rs_invI [OF r(2,3)]) (simp_all add: i(3,4) w1 w2)
        with e show ?thesis by blast
      qed
    qed
  qed
qed

lemma apply_rs_op_inv:
  assumes inv: "rs_inv rs"
  shows "\<exists>e rs'. apply_rs_op op rs = Some (e, rs') \<and> rs_inv rs'"
proof (cases op)
  case (OpInsert r d)
  with InsertRecord_inv [OF inv, of r d] show ?thesis by (simp add: apply_rs_op_def)
next
  case (OpUpdate r d)
  with UpdateRecord_inv [OF inv, of r d] show ?thesis by (simp add: apply_rs_op_def)
next
  case (OpDelete r)
  with DeleteRecord_inv [OF inv, of r] show ?thesis by (simp add: apply_rs_op_def)
next
  case OpTruncate
  with rs_inv_new [of rs] show ?thesis by (simp add: apply_rs_op_def Truncate_def)
qed

lemma run_rs_ops_inv:
  "rs_inv rs \<Longrightarrow> \<exists>rs'. run_rs_ops rs ops = Some rs' \<and> rs_inv rs'"
proof (induction ops arbitrary: rs)
  case Nil
  then show ?case by simp
next
  case (Cons op ops)
  from apply_rs_op_inv [OF Cons.prems, of op] obtain e rs1 where
    a: "apply_rs_op op rs = Some (e, rs1)" "rs_inv rs1" by blast
  from Cons.IH [OF a(2)] a(1) show ?case by simp
qed

text \<open>
  Claim C6. Take a new record store and any sequence of calls of \<open>InsertRecord\<close>,
  \<open>UpdateRecord\<close>, \<open>DeleteRecord\<close> and \<open>Truncate\<close>, with any record ids and payloads,
  whether the calls succeed or return an error. Every call returns, and in the store the
  sequence leaves, \<open>NumRecords()\<close> is the number of records a full scan yields and
  \<open>DataSize()\<close> is the sum of the byte lengths of the payloads that scan yields. The
  sequences of successful calls of the claim are among them. The counters are \<open>int64\<close>,
  and the equalities are between \<open>int64\<close> values, the totals of the scan converted as Go
  converts the \<open>int\<close> of a length.
\<close>

theorem record_store_counters_match_scan:
  "\<exists>rs'. run_rs_ops (NewRecordStore ns) ops = Some rs' \<and> counters_ok rs'"
proof -
  from run_rs_ops_inv [OF rs_inv_NewRecordStore, of ns ops] obtain rs' where
    "run_rs_ops (NewRecordStore ns) ops = Some rs'" "rs_inv rs'" by blast
  with rs_inv_counters show ?thesis by blast
qed

end
